theory Spec2Isabelle
  imports Main "HOL-Library.Sublist"
begin

section \<open>Python strings\<close>

text \<open>
  A Python \<open>str\<close> is modelled as a \<open>string\<close>. Every character the program inspects
  (the separator, the dot, the line breaks) is ASCII; other code points are carried along
  unchanged.
\<close>

abbreviation SEP :: char where "SEP \<equiv> CHR ''/''"
abbreviation DOT :: char where "DOT \<equiv> CHR ''.''"
abbreviation LF :: char where "LF \<equiv> CHR 0x0A"
abbreviation CR :: char where "CR \<equiv> CHR 0x0D"

text \<open>\<open>old in s\<close>: the string \<open>old\<close> occurs in \<open>s\<close> as a contiguous substring.\<close>

fun occurs :: "string \<Rightarrow> string \<Rightarrow> bool" where
  "occurs old [] = (old = [])"
| "occurs old (c # cs) = (prefix old (c # cs) \<or> occurs old cs)"

text \<open>
  \<open>s.replace(old, new)\<close> for a non-empty \<open>old\<close>: scan from the left, replace each
  occurrence and continue after it (occurrences do not overlap).
\<close>

function replace_scan :: "string \<Rightarrow> string \<Rightarrow> string \<Rightarrow> string" where
  "replace_scan old new [] = []"
| "replace_scan old new (c # cs) =
     (if old \<noteq> [] \<and> prefix old (c # cs)
      then new @ replace_scan old new (drop (length old) (c # cs))
      else c # replace_scan old new cs)"
  by pat_completeness auto
termination
  by (relation "measure (\<lambda>(old, new, s). length s)") auto

text \<open>
  \<open>s.replace(old, new)\<close>. With an empty \<open>old\<close> Python puts \<open>new\<close> before every
  character and at the end.
\<close>

definition str_replace :: "string \<Rightarrow> string \<Rightarrow> string \<Rightarrow> string" where
  "str_replace s old new =
     (if old = [] then new @ concat (map (\<lambda>c. c # new) s) else replace_scan old new s)"

text \<open>\<open>s.count(old)\<close> for a non-empty \<open>old\<close>: the non-overlapping occurrences, from the left.\<close>

function count_scan :: "string \<Rightarrow> string \<Rightarrow> nat" where
  "count_scan old [] = 0"
| "count_scan old (c # cs) =
     (if old \<noteq> [] \<and> prefix old (c # cs)
      then Suc (count_scan old (drop (length old) (c # cs)))
      else count_scan old cs)"
  by pat_completeness auto
termination
  by (relation "measure (\<lambda>(old, s). length s)") auto

definition str_count :: "string \<Rightarrow> string \<Rightarrow> nat" where
  "str_count s old = (if old = [] then Suc (length s) else count_scan old s)"

text \<open>\<open>s.rfind(c)\<close> for a single character: the last index of \<open>c\<close>, or \<open>-1\<close>.\<close>

definition rfind :: "string \<Rightarrow> char \<Rightarrow> int" where
  "rfind s c =
     (if c \<in> set s then int (length s) - 1 - int (length (takeWhile (\<lambda>x. x \<noteq> c) (rev s)))
      else - 1)"

text \<open>\<open>s.rstrip(c)\<close> for a single character.\<close>

definition rstrip :: "string \<Rightarrow> char \<Rightarrow> string" where
  "rstrip s c = rev (dropWhile (\<lambda>x. x = c) (rev s))"

text \<open>\<open>s.split(c)\<close> for a single separator character: never the empty list.\<close>

fun str_split :: "string \<Rightarrow> char \<Rightarrow> string list" where
  "str_split [] c = [[]]"
| "str_split (x # xs) c =
     (if x = c then [] # str_split xs c
      else (case str_split xs c of [] \<Rightarrow> [[x]] | w # ws \<Rightarrow> (x # w) # ws))"

text \<open>\<open>sep.join(xs)\<close> for a single separator character.\<close>

fun str_join :: "char \<Rightarrow> string list \<Rightarrow> string" where
  "str_join c [] = []"
| "str_join c [x] = x"
| "str_join c (x # y # ys) = x @ c # str_join c (y # ys)"

section \<open>The path functions of \<open>os.path\<close> (POSIX)\<close>

text \<open>
  \<open>os.path.split(p)\<close>: cut after the last separator; trailing separators are stripped
  from the head unless the head consists of separators only.
\<close>

definition os_path_split :: "string \<Rightarrow> string \<times> string" where
  "os_path_split p =
     (let i = nat (rfind p SEP + 1);
          head = take i p;
          tail = drop i p
      in (if head \<noteq> [] \<and> head \<noteq> replicate (length head) SEP then rstrip head SEP else head,
          tail))"

text \<open>
  The loop of \<open>genericpath._splitext\<close> that skips leading dots of the file name: \<open>True\<close>
  when a character other than the dot is found before \<open>dotIndex\<close> (the early return).
\<close>

function splitext_scan :: "string \<Rightarrow> nat \<Rightarrow> nat \<Rightarrow> bool" where
  "splitext_scan p filenameIndex dotIndex =
     (if filenameIndex < dotIndex
      then (if take 1 (drop filenameIndex p) \<noteq> [DOT] then True
            else splitext_scan p (Suc filenameIndex) dotIndex)
      else False)"
  by pat_completeness auto
termination
  by (relation "measure (\<lambda>(p, i, d). d - i)") auto

text \<open>\<open>os.path.splitext(p)\<close>: the extension starts at the last dot of the last component,
  leading dots of that component apart.\<close>

definition os_path_splitext :: "string \<Rightarrow> string \<times> string" where
  "os_path_splitext p =
     (let sepIndex = rfind p SEP;
          dotIndex = rfind p DOT
      in if dotIndex > sepIndex \<and> splitext_scan p (nat (sepIndex + 1)) (nat dotIndex)
         then (take (nat dotIndex) p, drop (nat dotIndex) p)
         else (p, []))"

text \<open>\<open>os.path.join(a, b)\<close> with one component \<open>b\<close>.\<close>

definition os_path_join :: "string \<Rightarrow> string \<Rightarrow> string" where
  "os_path_join a b =
     (if prefix [SEP] b then b
      else if a = [] \<or> suffix [SEP] a then a @ b
      else a @ [SEP] @ b)"

text \<open>
  The loop of \<open>os.path.normpath\<close> over the components: empty and dot components are
  skipped, a dot-dot removes the component before it, unless there is none to remove
  (then it is kept on a relative path and dropped on an absolute one) or the one before
  is itself a dot-dot.
\<close>

fun normpath_loop :: "nat \<Rightarrow> string list \<Rightarrow> string list \<Rightarrow> string list" where
  "normpath_loop initial_slashes new_comps [] = new_comps"
| "normpath_loop initial_slashes new_comps (c # comps) =
     (if c = [] \<or> c = ''.'' then normpath_loop initial_slashes new_comps comps
      else if c \<noteq> ''..'' \<or> (initial_slashes = 0 \<and> new_comps = [])
              \<or> (new_comps \<noteq> [] \<and> last new_comps = ''..'')
      then normpath_loop initial_slashes (new_comps @ [c]) comps
      else if new_comps \<noteq> [] then normpath_loop initial_slashes (butlast new_comps) comps
      else normpath_loop initial_slashes new_comps comps)"

text \<open>The number of initial separators \<open>os.path.normpath\<close> keeps: one or two initial
  separators are kept as they are, three or more count as one.\<close>

definition initial_slashes_of :: "string \<Rightarrow> nat" where
  "initial_slashes_of path =
     (if prefix [SEP] path
      then (if prefix [SEP, SEP] path \<and> \<not> prefix [SEP, SEP, SEP] path then 2 else 1)
      else 0)"

text \<open>\<open>os.path.normpath(path)\<close>.\<close>

definition os_path_normpath :: "string \<Rightarrow> string" where
  "os_path_normpath path =
     (if path = [] then ''.''
      else
        let initial_slashes = initial_slashes_of path;
            comps = str_split path SEP;
            new_comps = normpath_loop initial_slashes [] comps;
            path' = str_join SEP new_comps;
            path'' = (if initial_slashes \<noteq> 0 then replicate initial_slashes SEP @ path'
                      else path')
        in if path'' = [] then ''.'' else path'')"

section \<open>Path decomposition\<close>

record Filepath_info =
  folder :: string
  filename :: string
  stem :: string
  extension :: string
  bottom_folders :: string
  top_folder :: string

definition Filepath_info_init :: "string \<Rightarrow> Filepath_info" where
  "Filepath_info_init path =
     (let (folder, filename) = os_path_split path;
          (stem, extension) = os_path_splitext filename;
          (bottom_folders, top_folder) = os_path_split folder
      in \<lparr> folder = folder, filename = filename, stem = stem, extension = extension,
           bottom_folders = bottom_folders, top_folder = top_folder \<rparr>)"

section \<open>The process and its environment\<close>

text \<open>
  The program acts on the world through three channels: it prints, it runs shell commands
  (\<open>subprocess.run(..., shell=True)\<close>) and it opens gzip files in text mode. The world
  records what was printed and run, in order, and holds the gzip files the process can
  reach, by absolute path. What a shell command does (its exit status and its effect on
  the files) is a parameter.
\<close>

datatype event = Print string | Run string | GzOpen string string

text \<open>A file is gzip-compressed text, given by the text, or something \<open>gzip\<close> or the
  decoder refuses. \<open>ReadError\<close> stands for the exception raised then
  (\<open>BadGzipFile\<close> or \<open>UnicodeDecodeError\<close>). The compressed bytes, with the time stamp
  \<open>gzip\<close> puts into the header of every file it writes, are not represented: two files
  are equal here when their decompressed texts are.\<close>

datatype gzdata = GzText string | NotGzText

datatype py_exception =
    AssertionError string
  | TypeError
  | FileNotFoundError
  | ReadError
  | SystemExit int

datatype outcome = Returned | Raised py_exception

type_synonym filesystem = "string \<rightharpoonup> gzdata"

type_synonym shell = "string \<Rightarrow> filesystem \<Rightarrow> int \<times> filesystem"

record world =
  cwd :: string
  files :: filesystem
  trace :: "event list"


definition print :: "string \<Rightarrow> world \<Rightarrow> world" where
  "print s w = w\<lparr>trace := trace w @ [Print s]\<rparr>"

definition sp_run :: "shell \<Rightarrow> string \<Rightarrow> world \<Rightarrow> int \<times> world" where
  "sp_run sh command w =
     (let (returncode, fs) = sh command (files w)
      in (returncode, w\<lparr>files := fs, trace := trace w @ [Run command]\<rparr>))"

text \<open>A relative file name is resolved against the current working directory.\<close>

definition resolve :: "world \<Rightarrow> string \<Rightarrow> string" where
  "resolve w path = os_path_join (cwd w) path"

section \<open>Text files\<close>

text \<open>Reading in text mode with universal newlines: \<open>\r\n\<close> and \<open>\r\<close> become \<open>\n\<close>.\<close>

fun universal_newlines :: "string \<Rightarrow> string" where
  "universal_newlines [] = []"
| "universal_newlines [x] = (if x = CR then [LF] else [x])"
| "universal_newlines (x # y # ys) =
     (if x = CR \<and> y = LF then LF # universal_newlines ys
      else if x = CR then LF # universal_newlines (y # ys)
      else x # universal_newlines (y # ys))"

text \<open>Iterating over a text: the lines, each with its line break, the last one possibly
  without.\<close>

fun iter_lines :: "string \<Rightarrow> string list" where
  "iter_lines [] = []"
| "iter_lines (x # xs) =
     (if x = LF then [LF] # iter_lines xs
      else (case iter_lines xs of [] \<Rightarrow> [[x]] | l # ls \<Rightarrow> (x # l) # ls))"

definition read_lines :: "string \<Rightarrow> string list" where
  "read_lines text = iter_lines (universal_newlines text)"

text \<open>\<open>gzip.open(gzfile, "rt")\<close> and the iteration over it: the lines of the file, or the
  exception raised when the file is missing or is not gzip-compressed text.\<close>

definition gz_read :: "string \<Rightarrow> world \<Rightarrow> (py_exception + string list) \<times> world" where
  "gz_read gzfile w =
     (let w' = w\<lparr>trace := trace w @ [GzOpen gzfile ''rt'']\<rparr>
      in case files w (resolve w gzfile) of
           None \<Rightarrow> (Inl FileNotFoundError, w')
         | Some NotGzText \<Rightarrow> (Inl ReadError, w')
         | Some (GzText text) \<Rightarrow> (Inr (read_lines text), w'))"

text \<open>\<open>gzip.open(gzfile, "wt")\<close> and the writes: the file is replaced by the strings
  written, one after the other.\<close>

definition gz_write :: "string \<Rightarrow> string list \<Rightarrow> world \<Rightarrow> world" where
  "gz_write gzfile lines w =
     w\<lparr>files := (files w)(resolve w gzfile \<mapsto> GzText (concat lines)),
       trace := trace w @ [GzOpen gzfile ''wt'']\<rparr>"

section \<open>The program\<close>

abbreviation DQ :: char where "DQ \<equiv> CHR 0x22"

definition LATEXMK_COMMAND :: string where
  "LATEXMK_COMMAND = ''latexmk -pdf -interaction=nonstopmode -synctex=1 -verbose -f''"

definition SERVER_TARGET_DIR :: string where
  "SERVER_TARGET_DIR = ''/tmp''"

text \<open>The two rsync calls. The \<open>assert\<close> on the exit status is executed: the script is
  run by \<open>python3\<close> without \<open>-O\<close>.\<close>

definition sync_forward_command :: "string \<Rightarrow> string \<Rightarrow> string \<Rightarrow> string" where
  "sync_forward_command loc_filepath remote_filepath servername =
     ''rsync -a -h --exclude='' @ [DQ] @ ''.[!.]*'' @ [DQ] @ '' --info=progress2 ''
     @ loc_filepath @ '' '' @ servername @ '':'' @ remote_filepath"

definition sync_forward ::
  "shell \<Rightarrow> string \<Rightarrow> string \<Rightarrow> string \<Rightarrow> world \<Rightarrow> (py_exception + int) \<times> world" where
  "sync_forward sh loc_filepath remote_filepath servername w =
     (let (returncode, w') = sp_run sh (sync_forward_command loc_filepath remote_filepath servername) w
      in if returncode = 0 then (Inr returncode, w')
         else (Inl (AssertionError ''Forward rsync finished with nonzero exit code.''), w'))"

definition sync_back_command :: "string \<Rightarrow> string \<Rightarrow> string \<Rightarrow> string" where
  "sync_back_command remote_filepath loc_filepath servername =
     ''rsync -a -h --exclude='' @ [DQ] @ ''(.[!.]*|*.tex)'' @ [DQ] @ '' --info=progress2 ''
     @ servername @ '':'' @ remote_filepath @ '' '' @ loc_filepath"

definition sync_back ::
  "shell \<Rightarrow> string \<Rightarrow> string \<Rightarrow> string \<Rightarrow> world \<Rightarrow> (py_exception + int) \<times> world" where
  "sync_back sh remote_filepath loc_filepath servername w =
     (let (returncode, w') = sp_run sh (sync_back_command remote_filepath loc_filepath servername) w
      in if returncode = 0 then (Inr returncode, w')
         else (Inl (AssertionError ''Rsync back finished with nonzero exit code.''), w'))"

text \<open>The list \<open>newlines\<close> of \<open>sanitize_synctex\<close>: every line read, with the target
  directory replaced by the current directory, then normalised as a path.\<close>

definition newlines :: "string \<Rightarrow> string \<Rightarrow> string list \<Rightarrow> string list" where
  "newlines current_directory target_directory fin =
     map (\<lambda>line. os_path_normpath (str_replace line target_directory current_directory)) fin"

definition sanitize_synctex ::
  "string \<Rightarrow> string \<Rightarrow> string \<Rightarrow> world \<Rightarrow> (py_exception + unit) \<times> world" where
  "sanitize_synctex gzfile current_directory target_directory w =
     (case gz_read gzfile w of
        (Inl e, w') \<Rightarrow> (Inl e, w')
      | (Inr fin, w') \<Rightarrow>
          (Inr (), gz_write gzfile (newlines current_directory target_directory fin) w'))"

record args =
  filepath :: string
  servername :: "string option"

definition ssh_command :: "string \<Rightarrow> Filepath_info \<Rightarrow> string" where
  "ssh_command server fp =
     ''ssh '' @ server @ '' '' @ [DQ] @ ''cd ''
     @ os_path_join SERVER_TARGET_DIR (top_folder fp) @ '' && ''
     @ (LATEXMK_COMMAND @ '' '' @ filename fp) @ [DQ]"

definition banner :: "string \<Rightarrow> world \<Rightarrow> world" where
  "banner s w =
     print '' '' (print ''--------------------------------------'' (print s
       (print ''--------------------------------------'' (print '' '' w))))"

text \<open>
  \<open>main\<close>, after the command line is parsed. Without \<open>--server\<close> the server name is
  \<open>None\<close> and building the first message raises \<open>TypeError\<close>.
\<close>

definition main :: "shell \<Rightarrow> args \<Rightarrow> world \<Rightarrow> outcome \<times> world" where
  "main sh a w0 =
     (let fp = Filepath_info_init (filepath a) in
      case servername a of
        None \<Rightarrow> (Raised TypeError, w0)
      | Some server \<Rightarrow>
         (let w1 = print (''Syncing '' @ folder fp @ '' to '' @ server @ ''...'') w0 in
          case sync_forward sh (folder fp) SERVER_TARGET_DIR server w1 of
            (Inl e, w2) \<Rightarrow> (Raised e, w2)
          | (Inr _, w2) \<Rightarrow>
             (let w3 = banner ''----- latexmk output begins here -----'' w2;
                  (returncode, w4) = sp_run sh (ssh_command server fp) w3;
                  w5 = banner ''------ latexmk output ends here ------'' w4
              in if returncode \<noteq> 0
                 then (Raised (SystemExit 1),
                       print (''Server-side latexmk run finished with nonzero exit code. ''
                              @ replicate 16 CHR '' '' @ ''Not syncing back.'') w5)
                 else
                  (let w6 = print ''latexmk run successful! Syncing back...'' w5 in
                   case sync_back sh (os_path_join SERVER_TARGET_DIR (top_folder fp))
                          (bottom_folders fp) server w6 of
                     (Inl e, w7) \<Rightarrow> (Raised e, w7)
                   | (Inr _, w7) \<Rightarrow>
                      (let synctex_gz_file = stem fp @ ''.synctex.gz'';
                           w8 = print (''Fiddling with '' @ synctex_gz_file
                                       @ '' to make synctex work...'') w7
                       in case sanitize_synctex synctex_gz_file (bottom_folders fp)
                                 SERVER_TARGET_DIR w8 of
                            (Inl e, w9) \<Rightarrow> (Raised e, w9)
                          | (Inr _, w9) \<Rightarrow> (Returned, print ''Done! Exiting :)'' w9))))))"

section \<open>The exclude patterns handed to rsync\<close>

text \<open>
  The shell passes to rsync what stands between the double quotes of a command. rsync
  matches an exclude pattern without separator against the last component of each file
  name, by its wildcard rules: \<open>*\<close> matches any run of characters other than the
  separator, \<open>?\<close> one such character, \<open>[...]\<close> one character of a class (negated by a
  leading \<open>!\<close> or \<open>^\<close>), and every other character matches itself: the pattern language
  has no grouping and no alternation. Ranges, named classes and the backslash are left
  out, the patterns of the program use none of them.
\<close>

definition quoted_argument :: "string \<Rightarrow> string" where
  "quoted_argument command = takeWhile (\<lambda>c. c \<noteq> DQ) (tl (dropWhile (\<lambda>c. c \<noteq> DQ) command))"

datatype glob = Lit char | AnyChar | Star | Class bool "char list"

fun glob_parse :: "(bool \<times> char list) option \<Rightarrow> string \<Rightarrow> glob list" where
  "glob_parse None [] = []"
| "glob_parse None (c # cs) =
     (if c = CHR ''*'' then Star # glob_parse None cs
      else if c = CHR ''?'' then AnyChar # glob_parse None cs
      else if c = CHR ''['' then
        (case cs of
           [] \<Rightarrow> [Lit c]
         | d # ds \<Rightarrow>
             if d = CHR ''!'' \<or> d = CHR ''^'' then glob_parse (Some (True, [])) ds
             else glob_parse (Some (False, [])) cs)
      else Lit c # glob_parse None cs)"
| "glob_parse (Some (negated, members)) [] = [Class negated members]"
| "glob_parse (Some (negated, members)) (c # cs) =
     (if c = CHR '']'' then Class negated members # glob_parse None cs
      else glob_parse (Some (negated, members @ [c])) cs)"

fun glob_match :: "glob list \<Rightarrow> string \<Rightarrow> bool" where
  "glob_match [] s = (s = [])"
| "glob_match (Lit c # ps) s = (case s of [] \<Rightarrow> False | x # xs \<Rightarrow> x = c \<and> glob_match ps xs)"
| "glob_match (AnyChar # ps) s = (case s of [] \<Rightarrow> False | x # xs \<Rightarrow> x \<noteq> SEP \<and> glob_match ps xs)"
| "glob_match (Class negated members # ps) s =
     (case s of [] \<Rightarrow> False
      | x # xs \<Rightarrow> x \<noteq> SEP \<and> (x \<in> set members) \<noteq> negated \<and> glob_match ps xs)"
| "glob_match (Star # ps) s =
     (glob_match ps s \<or> (case s of [] \<Rightarrow> False | x # xs \<Rightarrow> x \<noteq> SEP \<and> glob_match (Star # ps) xs))"

text \<open>Whether rsync leaves out a file whose last component is \<open>name\<close>, for an exclude
  pattern without separator.\<close>

definition rsync_excludes :: "string \<Rightarrow> string \<Rightarrow> bool" where
  "rsync_excludes pattern name = glob_match (glob_parse None pattern) name"

section \<open>Notions used to state the properties\<close>

text \<open>What a run did to its environment, printing apart: the shell commands run and the
  gzip files opened, in order.\<close>

definition actions :: "world \<Rightarrow> event list" where
  "actions w = filter (\<lambda>e. case e of Print _ \<Rightarrow> False | _ \<Rightarrow> True) (trace w)"

text \<open>The shape of the lines a text file yields: no line is empty, a line break can only
  be the last character of a line, and every line but the last ends with one.\<close>

definition lines_wf :: "string list \<Rightarrow> bool" where
  "lines_wf ls \<longleftrightarrow>
     (\<forall>l \<in> set ls. l \<noteq> [] \<and> LF \<notin> set (butlast l)) \<and> (\<forall>l \<in> set (butlast ls). last l = LF)"

text \<open>
  The component lists \<open>os.path.normpath\<close> ends with: no empty component, no dot, no
  separator inside a component, and a dot-dot only at the front of a relative path.
\<close>

definition normal_comps :: "nat \<Rightarrow> string list \<Rightarrow> bool" where
  "normal_comps initial_slashes cs \<longleftrightarrow>
     (\<forall>c \<in> set cs. c \<noteq> [] \<and> c \<noteq> ''.'' \<and> SEP \<notin> set c)
     \<and> ''..'' \<notin> set (if initial_slashes = 0 then dropWhile (\<lambda>c. c = ''..'') cs else cs)"

text \<open>
  \<open>s.split(old)\<close> for a non-empty string \<open>old\<close>: the pieces of \<open>s\<close> between the
  occurrences of \<open>old\<close> that \<open>replace\<close> and \<open>count\<close> find.
\<close>

function split_scan :: "string \<Rightarrow> string \<Rightarrow> string list" where
  "split_scan old [] = [[]]"
| "split_scan old (c # cs) =
     (if old \<noteq> [] \<and> prefix old (c # cs)
      then [] # split_scan old (drop (length old) (c # cs))
      else (case split_scan old cs of [] \<Rightarrow> [[c]] | p # ps \<Rightarrow> (c # p) # ps))"
  by pat_completeness auto
termination
  by (relation "measure (\<lambda>(old, s). length s)") auto

text \<open>\<open>new.join(pieces)\<close> for a string \<open>new\<close>.\<close>

fun join_with :: "string \<Rightarrow> string list \<Rightarrow> string" where
  "join_with new [] = []"
| "join_with new [p] = p"
| "join_with new (p # q # ps) = p @ new @ join_with new (q # ps)"

section \<open>Control flow of the driver\<close>

lemma actions_print [simp]: "actions (print s w) = actions w"
  by (simp add: actions_def print_def)

lemma actions_banner [simp]: "actions (banner s w) = actions w"
  by (simp add: banner_def)

lemma files_print [simp]: "files (print s w) = files w"
  by (simp add: print_def)

lemma files_banner [simp]: "files (banner s w) = files w"
  by (simp add: banner_def)

lemma sp_run_eq:
  "sh c (files w) = (rc, fs) \<Longrightarrow>
   sp_run sh c w = (rc, w\<lparr>files := fs, trace := trace w @ [Run c]\<rparr>)"
  by (simp add: sp_run_def)

lemma actions_run [simp]:
  "actions (w\<lparr>files := fs, trace := trace w @ [Run c]\<rparr>) = actions w @ [Run c]"
  by (simp add: actions_def)

text \<open>
  Claim C8. When the forward rsync ends with a nonzero status, \<open>main\<close> stops with the
  assertion error of \<open>sync_forward\<close>: the only action of the run is the forward rsync
  itself, so no remote build command is issued, nothing is synced back and no mapping
  file is opened.
\<close>

theorem forward_failure_is_fatal:
  assumes "servername a = Some server"
    and "fp = Filepath_info_init (filepath a)"
    and "sh (sync_forward_command (folder fp) SERVER_TARGET_DIR server) (files w0) = (status, fs1)"
    and "status \<noteq> 0"
  shows "fst (main sh a w0) = Raised (AssertionError ''Forward rsync finished with nonzero exit code.'')
       \<and> actions (snd (main sh a w0))
           = actions w0 @ [Run (sync_forward_command (folder fp) SERVER_TARGET_DIR server)]
       \<and> files (snd (main sh a w0)) = fs1"
  using assms
  by (simp add: main_def sync_forward_def sp_run_eq Let_def)

theorem forward_failure_is_fatal_witness:
  "servername \<lparr>filepath = ''/p/t/n.tex'', servername = Some ''h''\<rparr> = Some ''h''
   \<and> (\<lambda>c fs. (1, fs)) (sync_forward_command (folder (Filepath_info_init ''/p/t/n.tex'')) SERVER_TARGET_DIR ''h'')
         (files \<lparr>cwd = ''/p/t'', files = Map.empty, trace = []\<rparr>) = (1::int, Map.empty)
   \<and> (1::int) \<noteq> 0
   \<and> fst (main (\<lambda>c fs. (1, fs)) \<lparr>filepath = ''/p/t/n.tex'', servername = Some ''h''\<rparr>
              \<lparr>cwd = ''/p/t'', files = Map.empty, trace = []\<rparr>)
       = Raised (AssertionError ''Forward rsync finished with nonzero exit code.'')
   \<and> actions (snd (main (\<lambda>c fs. (1, fs)) \<lparr>filepath = ''/p/t/n.tex'', servername = Some ''h''\<rparr>
              \<lparr>cwd = ''/p/t'', files = Map.empty, trace = []\<rparr>))
       = [Run (sync_forward_command (folder (Filepath_info_init ''/p/t/n.tex'')) SERVER_TARGET_DIR ''h'')]"
  using forward_failure_is_fatal [of "\<lparr>filepath = ''/p/t/n.tex'', servername = Some ''h''\<rparr>" "''h''"
      "Filepath_info_init ''/p/t/n.tex''" "\<lambda>c fs. (1, fs)"
      "\<lparr>cwd = ''/p/t'', files = Map.empty, trace = []\<rparr>" 1 Map.empty]
  by (simp add: actions_def)

lemma actions_gz_read:
  "actions (snd (gz_read f w)) = actions w @ [GzOpen f ''rt'']"
  by (simp add: gz_read_def actions_def Let_def split: option.splits gzdata.splits)

lemma actions_sanitize_prefix:
  "prefix (actions w @ [GzOpen f ''rt'']) (actions (snd (sanitize_synctex f c t w)))"
proof (cases "gz_read f w")
  case (Pair r w')
  then have a: "actions w' = actions w @ [GzOpen f ''rt'']"
    using actions_gz_read [of f w] by simp
  show ?thesis
  proof (cases r)
    case (Inl e)
    with Pair a show ?thesis by (simp add: sanitize_synctex_def)
  next
    case (Inr fin)
    with Pair a show ?thesis
      by (simp add: sanitize_synctex_def gz_write_def actions_def)
  qed
qed



section \<open>Path decomposition: split and join\<close>

lemma occurs_iff_sublist: "occurs old s \<longleftrightarrow> sublist old s"
  by (induction s) (auto simp: sublist_Cons_right)

lemma occurs_append_iff: "occurs old s \<longleftrightarrow> (\<exists>pre suf. s = pre @ old @ suf)"
  by (simp add: occurs_iff_sublist sublist_def)

lemma rfind_absent: "c \<notin> set s \<Longrightarrow> rfind s c = - 1"
  by (simp add: rfind_def)

lemma rfind_last: "c \<notin> set t \<Longrightarrow> rfind (a @ c # t) c = int (length a)"
proof -
  have "takeWhile (\<lambda>x. x \<noteq> c) (rev t @ c # rev a) = rev t"
    if "c \<notin> set t"
    using that by (induction t rule: rev_induct) auto
  then show "c \<notin> set t \<Longrightarrow> rfind (a @ c # t) c = int (length a)"
    by (simp add: rfind_def)
qed

lemma split_index: "c \<notin> set t \<Longrightarrow> nat (rfind (a @ c # t) c + 1) = Suc (length a)"
  by (simp add: rfind_last)

lemma os_path_split_cut:
  "SEP \<notin> set t \<Longrightarrow>
   os_path_split (a @ SEP # t)
     = (if a @ [SEP] \<noteq> replicate (Suc (length a)) SEP then rstrip (a @ [SEP]) SEP else a @ [SEP], t)"
  by (simp add: os_path_split_def split_index Let_def del: replicate_Suc)

lemma rstrip_snoc_sep: "a \<noteq> [] \<Longrightarrow> last a \<noteq> c \<Longrightarrow> rstrip (a @ [c]) c = a"
  by (cases a rule: rev_cases) (auto simp: rstrip_def)

lemma os_path_split_no_sep: "SEP \<notin> set p \<Longrightarrow> os_path_split p = ([], p)"
  by (simp add: os_path_split_def rfind_absent)

lemma os_path_split_root: "SEP \<notin> set t \<Longrightarrow> os_path_split (SEP # t) = ([SEP], t)"
  using os_path_split_cut [of t "[]"] by simp

lemma os_path_split_inner:
  assumes "SEP \<notin> set t" "a \<noteq> []" "last a \<noteq> SEP"
  shows "os_path_split (a @ SEP # t) = (a, t)"
proof -
  have ne: "a @ [SEP] \<noteq> replicate (Suc (length a)) SEP"
  proof
    assume "a @ [SEP] = replicate (Suc (length a)) SEP"
    then have "set (a @ [SEP]) \<subseteq> {SEP}" by (metis set_replicate_conv_if subset_refl empty_subsetI)
    with assms(2,3) show False by (cases a rule: rev_cases) auto
  qed
  show ?thesis
    using ne rstrip_snoc_sep [OF assms(2,3)]
    by (simp add: os_path_split_cut [OF assms(1)] del: replicate_Suc)
qed

lemma no_double_sep_last:
  assumes "\<not> occurs [SEP, SEP] (a @ SEP # t)" "a \<noteq> []"
  shows "last a \<noteq> SEP"
proof
  assume l: "last a = SEP"
  from assms(2) obtain b where "a = b @ [SEP]" using l by (metis append_butlast_last_id)
  then have "a @ SEP # t = b @ [SEP, SEP] @ t" by simp
  then show False using assms(1) unfolding occurs_append_iff by blast
qed

lemma split_join_no_double_sep:
  assumes "\<not> occurs [SEP, SEP] p"
  shows "os_path_join (fst (os_path_split p)) (snd (os_path_split p)) = p"
proof (cases "SEP \<in> set p")
  case False
  then show ?thesis
    by (cases p) (auto simp: os_path_split_no_sep os_path_join_def)
next
  case True
  then obtain a t where p: "p = a @ SEP # t" and t: "SEP \<notin> set t"
    using split_list_last by fastforce
  have nt: "\<not> prefix [SEP] t" using t by (cases t) auto
  show ?thesis
  proof (cases "a = []")
    case True
    with p t nt show ?thesis by (simp add: os_path_split_root os_path_join_def)
  next
    case False
    then have l: "last a \<noteq> SEP" using assms p no_double_sep_last by blast
    then have "\<not> suffix [SEP] a" using False by (auto simp: suffix_def)
    with p t nt False l show ?thesis
      by (simp add: os_path_split_inner os_path_join_def)
  qed
qed

lemma split_head_no_double_sep:
  assumes "\<not> occurs [SEP, SEP] p"
  shows "\<not> occurs [SEP, SEP] (fst (os_path_split p))"
proof (cases "SEP \<in> set p")
  case False
  then show ?thesis by (simp add: os_path_split_no_sep)
next
  case True
  then obtain a t where p: "p = a @ SEP # t" and t: "SEP \<notin> set t"
    using split_list_last by fastforce
  show ?thesis
  proof (cases "a = []")
    case True
    with p t show ?thesis by (simp add: os_path_split_root)
  next
    case False
    then have l: "last a \<noteq> SEP" using assms p no_double_sep_last by blast
    have "\<not> occurs [SEP, SEP] a"
    proof
      assume "occurs [SEP, SEP] a"
      then obtain pre suf where "a = pre @ [SEP, SEP] @ suf" unfolding occurs_append_iff by blast
      then have "p = pre @ [SEP, SEP] @ (suf @ SEP # t)" using p by simp
      then show False using assms unfolding occurs_append_iff by blast
    qed
    with p t False l show ?thesis by (simp add: os_path_split_inner)
  qed
qed

lemma splitext_concat: "fst (os_path_splitext p) @ snd (os_path_splitext p) = p"
  by (simp add: os_path_splitext_def Let_def)

lemma Filepath_info_fields:
  "folder (Filepath_info_init p) = fst (os_path_split p)"
  "filename (Filepath_info_init p) = snd (os_path_split p)"
  "stem (Filepath_info_init p) = fst (os_path_splitext (snd (os_path_split p)))"
  "extension (Filepath_info_init p) = snd (os_path_splitext (snd (os_path_split p)))"
  "bottom_folders (Filepath_info_init p) = fst (os_path_split (fst (os_path_split p)))"
  "top_folder (Filepath_info_init p) = snd (os_path_split (fst (os_path_split p)))"
  by (simp_all add: Filepath_info_init_def Let_def split: prod.splits)

text \<open>
  Claim C2, amended. For an absolute path \<open>P\<close> in which no two separators are adjacent,
  the decomposition has a non-empty folder, the folder is the join of bottom folder and
  top folder, the file name is stem followed by extension, and joining folder and file
  name gives \<open>P\<close> back. (\<open>os.path.split\<close> strips the separators between head and tail,
  so a doubled separator is not restored by \<open>os.path.join\<close>.)
\<close>

theorem decomposition_rejoins:
  assumes "prefix [SEP] P" and "\<not> occurs [SEP, SEP] P"
  shows "folder (Filepath_info_init P) \<noteq> []
       \<and> folder (Filepath_info_init P)
           = os_path_join (bottom_folders (Filepath_info_init P)) (top_folder (Filepath_info_init P))
       \<and> filename (Filepath_info_init P) = stem (Filepath_info_init P) @ extension (Filepath_info_init P)
       \<and> os_path_join (folder (Filepath_info_init P)) (filename (Filepath_info_init P)) = P"
proof -
  have j: "os_path_join (fst (os_path_split P)) (snd (os_path_split P)) = P"
    using assms(2) by (rule split_join_no_double_sep)
  have "fst (os_path_split P) \<noteq> []"
  proof
    assume e: "fst (os_path_split P) = []"
    with j have "snd (os_path_split P) = P" by (simp add: os_path_join_def split: if_splits)
    moreover have "SEP \<notin> set (snd (os_path_split P))"
    proof (cases "SEP \<in> set P")
      case False then show ?thesis by (simp add: os_path_split_no_sep)
    next
      case True
      then obtain a t where p: "P = a @ SEP # t" and t: "SEP \<notin> set t"
        using split_list_last by fastforce
      then show ?thesis
        using e by (simp add: os_path_split_cut)
    qed
    ultimately show False using assms(1) by (auto simp: prefix_def)
  qed
  then show ?thesis
    using j split_join_no_double_sep [OF split_head_no_double_sep [OF assms(2)]]
    by (simp add: Filepath_info_fields splitext_concat)
qed

theorem decomposition_rejoins_witness:
  "prefix [SEP] ''/h/p/t/n.tex'' \<and> \<not> occurs [SEP, SEP] ''/h/p/t/n.tex''
   \<and> folder (Filepath_info_init ''/h/p/t/n.tex'') \<noteq> []
   \<and> folder (Filepath_info_init ''/h/p/t/n.tex'')
       = os_path_join (bottom_folders (Filepath_info_init ''/h/p/t/n.tex''))
           (top_folder (Filepath_info_init ''/h/p/t/n.tex''))
   \<and> filename (Filepath_info_init ''/h/p/t/n.tex'')
       = stem (Filepath_info_init ''/h/p/t/n.tex'') @ extension (Filepath_info_init ''/h/p/t/n.tex'')
   \<and> os_path_join (folder (Filepath_info_init ''/h/p/t/n.tex''))
        (filename (Filepath_info_init ''/h/p/t/n.tex'')) = ''/h/p/t/n.tex''"
proof -
  have h1: "prefix [SEP] ''/h/p/t/n.tex''" by simp
  have h2: "\<not> occurs [SEP, SEP] ''/h/p/t/n.tex''" by simp
  from decomposition_rejoins [OF h1 h2] h1 h2 show ?thesis by blast
qed

theorem decomposition_rejoin_counterexample:
  "prefix [SEP] ''/a//b//n.tex''
   \<and> folder (Filepath_info_init ''/a//b//n.tex'') \<noteq> []
   \<and> folder (Filepath_info_init ''/a//b//n.tex'')
       \<noteq> os_path_join (bottom_folders (Filepath_info_init ''/a//b//n.tex''))
            (top_folder (Filepath_info_init ''/a//b//n.tex''))
   \<and> os_path_join (folder (Filepath_info_init ''/a//b//n.tex''))
        (filename (Filepath_info_init ''/a//b//n.tex'')) \<noteq> ''/a//b//n.tex''"
  by (simp add: Filepath_info_fields os_path_split_def os_path_join_def rfind_def rstrip_def
      suffix_to_prefix)

section \<open>The file handed to the repair step\<close>

lemma split_tail_no_sep: "SEP \<notin> set (snd (os_path_split p))"
proof (cases "SEP \<in> set p")
  case False
  then show ?thesis by (simp add: os_path_split_no_sep)
next
  case True
  then obtain a t where "p = a @ SEP # t" and "SEP \<notin> set t"
    using split_list_last by fastforce
  then show ?thesis by (simp add: os_path_split_cut)
qed

lemma splitext_stem_subset: "set (fst (os_path_splitext f)) \<subseteq> set f"
  by (simp add: os_path_splitext_def Let_def set_take_subset)

lemma stem_no_sep: "SEP \<notin> set (stem (Filepath_info_init p))"
  using split_tail_no_sep [of p] splitext_stem_subset [of "snd (os_path_split p)"]
  by (auto simp: Filepath_info_fields)

lemma join_relative: "\<not> prefix [SEP] b \<Longrightarrow> os_path_join a b = os_path_join a [] @ b"
  by (simp add: os_path_join_def)

lemma cwd_print [simp]: "cwd (print s w) = cwd w"
  by (simp add: print_def)

lemma cwd_banner [simp]: "cwd (banner s w) = cwd w"
  by (simp add: banner_def)

lemma sanitize_synctex_files:
  "files w = fs \<Longrightarrow> cwd w = d \<Longrightarrow>
   files (snd (sanitize_synctex f c t w))
     = (case fs (os_path_join d f) of
          Some (GzText text) \<Rightarrow>
            fs(os_path_join d f \<mapsto> GzText (concat (newlines c t (read_lines text))))
        | _ \<Rightarrow> fs)"
  by (auto simp add: sanitize_synctex_def gz_read_def gz_write_def resolve_def Let_def
      split: option.splits gzdata.splits)

text \<open>
  Claim C9. In a run that reaches the repair step, the file \<open>main\<close> hands to
  \<open>sanitize_synctex\<close> is \<open>stem + ".synctex.gz"\<close>. The name holds no separator, so it
  is a relative path and is resolved against the current working directory of the
  process: the only file the repair reads and rewrites is that one. It is the file of the
  same name in the document's folder exactly when the working directory and the folder
  agree up to a trailing separator.
\<close>

theorem repair_opens_name_relative_to_cwd:
  assumes "servername a = Some server"
    and "fp = Filepath_info_init (filepath a)"
    and "gz = stem fp @ ''.synctex.gz''"
    and "sh (sync_forward_command (folder fp) SERVER_TARGET_DIR server) (files w0) = (0, fs1)"
    and "sh (ssh_command server fp) fs1 = (0, fs2)"
    and "sh (sync_back_command (os_path_join SERVER_TARGET_DIR (top_folder fp))
               (bottom_folders fp) server) fs2 = (0, fs3)"
  shows "GzOpen gz ''rt'' \<in> set (actions (snd (main sh a w0)))
       \<and> SEP \<notin> set gz
       \<and> resolve w0 gz = os_path_join (cwd w0) [] @ gz
       \<and> files (snd (main sh a w0))
           = (case fs3 (resolve w0 gz) of
                Some (GzText text) \<Rightarrow>
                  fs3(resolve w0 gz \<mapsto>
                        GzText (concat (newlines (bottom_folders fp) SERVER_TARGET_DIR (read_lines text))))
              | _ \<Rightarrow> fs3)
       \<and> (resolve w0 gz = os_path_join (folder fp) gz
            \<longleftrightarrow> os_path_join (cwd w0) [] = os_path_join (folder fp) [])"
proof -
  let ?fwd = "sync_forward_command (folder fp) SERVER_TARGET_DIR server"
  let ?bck = "sync_back_command (os_path_join SERVER_TARGET_DIR (top_folder fp)) (bottom_folders fp) server"
  let ?w1 = "print (''Syncing '' @ folder fp @ '' to '' @ server @ ''...'') w0"
  let ?w2 = "?w1\<lparr>files := fs1, trace := trace ?w1 @ [Run ?fwd]\<rparr>"
  let ?w3 = "banner ''----- latexmk output begins here -----'' ?w2"
  let ?w4 = "?w3\<lparr>files := fs2, trace := trace ?w3 @ [Run (ssh_command server fp)]\<rparr>"
  let ?w5 = "banner ''------ latexmk output ends here ------'' ?w4"
  let ?w6 = "print ''latexmk run successful! Syncing back...'' ?w5"
  let ?w7 = "?w6\<lparr>files := fs3, trace := trace ?w6 @ [Run ?bck]\<rparr>"
  let ?w8 = "print (''Fiddling with '' @ gz @ '' to make synctex work...'') ?w7"
  have fwd: "sync_forward sh (folder fp) SERVER_TARGET_DIR server ?w1 = (Inr 0, ?w2)"
    using assms(4) by (simp add: sync_forward_def sp_run_eq)
  have sshr: "sp_run sh (ssh_command server fp) ?w3 = (0, ?w4)"
    using assms(5) by (simp add: sp_run_eq)
  have bk: "sync_back sh (os_path_join SERVER_TARGET_DIR (top_folder fp)) (bottom_folders fp) server ?w6
              = (Inr 0, ?w7)"
    using assms(6) by (simp add: sync_back_def sp_run_eq)
  have nosep: "SEP \<notin> set gz"
    using stem_no_sep [of "filepath a"] assms(2,3) by simp
  then have rel: "\<not> prefix [SEP] gz"
    by (cases gz) auto
  have w8: "files ?w8 = fs3" "cwd ?w8 = cwd w0"
    by simp_all
  obtain r w9 where san: "sanitize_synctex gz (bottom_folders fp) SERVER_TARGET_DIR ?w8 = (r, w9)"
    by (cases "sanitize_synctex gz (bottom_folders fp) SERVER_TARGET_DIR ?w8")
  have m: "files (snd (main sh a w0)) = files w9 \<and> actions (snd (main sh a w0)) = actions w9"
    using assms(1,2,3) fwd sshr bk san
    by (cases r) (simp_all add: main_def Let_def)
  have "prefix (actions ?w8 @ [GzOpen gz ''rt'']) (actions w9)"
    using actions_sanitize_prefix [of ?w8 gz "bottom_folders fp" SERVER_TARGET_DIR] san by simp
  then have ev: "GzOpen gz ''rt'' \<in> set (actions (snd (main sh a w0)))"
    using m by (auto simp: prefix_def)
  have fl: "files w9
           = (case fs3 (resolve w0 gz) of
                Some (GzText text) \<Rightarrow>
                  fs3(resolve w0 gz \<mapsto>
                        GzText (concat (newlines (bottom_folders fp) SERVER_TARGET_DIR (read_lines text))))
              | _ \<Rightarrow> fs3)"
    using sanitize_synctex_files [OF w8, of gz "bottom_folders fp" SERVER_TARGET_DIR] san
    by (simp only: resolve_def snd_conv)
  have r1: "resolve w0 gz = os_path_join (cwd w0) [] @ gz"
    using join_relative [OF rel] by (simp add: resolve_def)
  have r2: "os_path_join (folder fp) gz = os_path_join (folder fp) [] @ gz"
    using join_relative [OF rel] by simp
  have "resolve w0 gz = os_path_join (folder fp) gz
            \<longleftrightarrow> os_path_join (cwd w0) [] = os_path_join (folder fp) []"
    by (simp only: r1 r2 append_same_eq)
  with ev nosep r1 fl m show ?thesis
    by (simp only: simp_thms)
qed

theorem repair_opens_name_relative_to_cwd_witness:
  "servername \<lparr>filepath = ''/p/t/n.tex'', servername = Some ''h''\<rparr> = Some ''h''
   \<and> GzOpen (stem (Filepath_info_init ''/p/t/n.tex'') @ ''.synctex.gz'') ''rt''
       \<in> set (actions (snd (main (\<lambda>c fs. (0, fs)) \<lparr>filepath = ''/p/t/n.tex'', servername = Some ''h''\<rparr>
                \<lparr>cwd = ''/q'', files = Map.empty, trace = []\<rparr>)))
   \<and> resolve \<lparr>cwd = ''/q'', files = Map.empty, trace = []\<rparr>
        (stem (Filepath_info_init ''/p/t/n.tex'') @ ''.synctex.gz'')
       = os_path_join (cwd \<lparr>cwd = ''/q'', files = Map.empty, trace = []\<rparr>) []
           @ (stem (Filepath_info_init ''/p/t/n.tex'') @ ''.synctex.gz'')"
proof -
  let ?a = "\<lparr>filepath = ''/p/t/n.tex'', servername = Some ''h''\<rparr>"
  let ?w = "\<lparr>cwd = ''/q'', files = Map.empty, trace = []\<rparr>"
  let ?sh = "\<lambda>c fs. (0, fs)"
  have h1: "servername ?a = Some ''h''" by simp
  have h2: "Filepath_info_init ''/p/t/n.tex'' = Filepath_info_init (filepath ?a)" by simp
  have h4: "?sh (sync_forward_command (folder (Filepath_info_init ''/p/t/n.tex'')) SERVER_TARGET_DIR ''h'') (files ?w)
              = (0, Map.empty)" by simp
  have h5: "?sh (ssh_command ''h'' (Filepath_info_init ''/p/t/n.tex'')) Map.empty = (0, Map.empty)" by simp
  have h6: "?sh (sync_back_command (os_path_join SERVER_TARGET_DIR (top_folder (Filepath_info_init ''/p/t/n.tex'')))
               (bottom_folders (Filepath_info_init ''/p/t/n.tex'')) ''h'') Map.empty = (0, Map.empty)" by simp
  from repair_opens_name_relative_to_cwd [OF h1 h2 refl h4 h5 h6] h1
  show ?thesis by blast
qed

section \<open>Reading a text file line by line\<close>

lemma universal_newlines_no_CR: "CR \<notin> set (universal_newlines t)"
  by (induction t rule: universal_newlines.induct) auto

lemma universal_newlines_id: "CR \<notin> set t \<Longrightarrow> universal_newlines t = t"
  by (induction t rule: universal_newlines.induct) auto

lemma iter_lines_terminated:
  "LF \<notin> set b \<Longrightarrow> iter_lines (b @ LF # rest) = (b @ [LF]) # iter_lines rest"
  by (induction b) auto

lemma iter_lines_unterminated:
  "LF \<notin> set l \<Longrightarrow> l \<noteq> [] \<Longrightarrow> iter_lines l = [l]"
proof (induction l)
  case Nil
  then show ?case by simp
next
  case (Cons x l)
  then show ?case by (cases l) auto
qed

lemma line_cases:
  assumes "l \<noteq> []" "LF \<notin> set (butlast l)"
  obtains (terminated) b where "l = b @ [LF]" "LF \<notin> set b"
        | (unterminated) "LF \<notin> set l"
proof (cases "last l = LF")
  case True
  with assms have "l = butlast l @ [LF]" by (metis append_butlast_last_id)
  with assms(2) show ?thesis using terminated by blast
next
  case False
  have "set l = set (butlast l) \<union> {last l}"
    using assms(1) by (metis append_butlast_last_id set_append list.set(1,2) Un_insert_right sup_bot.right_neutral)
  with False assms(2) have "LF \<notin> set l" by auto
  then show ?thesis using unterminated by blast
qed

lemma lines_wf_Nil [simp]: "lines_wf []"
  by (simp add: lines_wf_def)

lemma lines_wf_single: "lines_wf [l] \<longleftrightarrow> l \<noteq> [] \<and> LF \<notin> set (butlast l)"
  by (simp add: lines_wf_def)

lemma lines_wf_Cons2:
  "lines_wf (l # m # ls) \<longleftrightarrow> l \<noteq> [] \<and> LF \<notin> set (butlast l) \<and> last l = LF \<and> lines_wf (m # ls)"
  by (auto simp: lines_wf_def)

lemma iter_lines_concat_wf: "lines_wf ls \<Longrightarrow> iter_lines (concat ls) = ls"
proof (induction ls)
  case Nil
  then show ?case by simp
next
  case (Cons l ls)
  show ?case
  proof (cases ls)
    case Nil
    from Cons.prems Nil have "l \<noteq> []" "LF \<notin> set (butlast l)"
      by (simp_all add: lines_wf_single)
    then show ?thesis
    proof (cases rule: line_cases)
      case (terminated b)
      then show ?thesis using Nil iter_lines_terminated [of b "[]"] by simp
    next
      case unterminated
      then show ?thesis using Nil \<open>l \<noteq> []\<close> by (simp add: iter_lines_unterminated)
    qed
  next
    case (Cons m ms)
    from Cons.prems Cons have l: "l \<noteq> []" "LF \<notin> set (butlast l)" "last l = LF" and wf: "lines_wf ls"
      by (simp_all add: lines_wf_Cons2)
    from l have "l = butlast l @ [LF]" by (metis append_butlast_last_id)
    then have "iter_lines (concat (l # ls)) = l # iter_lines (concat ls)"
      using iter_lines_terminated [OF l(2), of "concat ls"] by (metis append.assoc append_Cons append_Nil concat.simps(2))
    then show ?thesis using Cons.IH [OF wf] by simp
  qed
qed

lemma iter_lines_wf: "lines_wf (iter_lines t)"
proof (induction t)
  case Nil
  then show ?case by simp
next
  case (Cons x t)
  show ?case
  proof (cases "x = LF")
    case True
    then show ?thesis using Cons.IH
      by (cases "iter_lines t") (simp_all add: lines_wf_single lines_wf_Cons2)
  next
    case False
    show ?thesis
    proof (cases "iter_lines t")
      case Nil
      with False show ?thesis by (simp add: lines_wf_single)
    next
      case (Cons l ls)
      with Cons.IH have wf: "lines_wf (l # ls)" by simp
      then have l: "l \<noteq> []" "LF \<notin> set (butlast l)" by (auto simp: lines_wf_def)
      have "lines_wf ((x # l) # ls)"
        using wf l False by (cases ls) (auto simp: lines_wf_single lines_wf_Cons2)
      with Cons False show ?thesis by simp
    qed
  qed
qed

lemma iter_lines_concat: "concat (iter_lines t) = t"
  by (induction t) (auto split: list.splits)

lemma read_lines_wf: "lines_wf (read_lines t)"
  by (simp add: read_lines_def iter_lines_wf)

lemma read_lines_no_CR: "l \<in> set (read_lines t) \<Longrightarrow> CR \<notin> set l"
proof -
  assume "l \<in> set (read_lines t)"
  then have "set l \<subseteq> set (concat (iter_lines (universal_newlines t)))"
    by (auto simp: read_lines_def)
  then show ?thesis
    using universal_newlines_no_CR [of t] by (auto simp: iter_lines_concat)
qed

lemma read_lines_concat:
  assumes "lines_wf ls" "\<forall>l \<in> set ls. CR \<notin> set l"
  shows "read_lines (concat ls) = ls"
proof -
  have "CR \<notin> set (concat ls)" using assms(2) by auto
  then show ?thesis
    using assms(1) by (simp add: read_lines_def universal_newlines_id iter_lines_concat_wf)
qed

section \<open>Substring replacement\<close>

lemma replace_scan_set: "set (replace_scan old new s) \<subseteq> set s \<union> set new"
proof (induction old new s rule: replace_scan.induct)
  case (1 old new)
  then show ?case by simp
next
  case (2 old new c cs)
  show ?case
  proof (cases "old \<noteq> [] \<and> prefix old (c # cs)")
    case True
    then have "set (replace_scan old new (drop (length old) (c # cs))) \<subseteq> set (drop (length old) (c # cs)) \<union> set new"
      using "2.IH"(1) by simp
    moreover have "set (drop (length old) (c # cs)) \<subseteq> set (c # cs)"
      by (rule set_drop_subset)
    ultimately show ?thesis using True by auto
  next
    case False
    then show ?thesis using "2.IH"(2) by auto
  qed
qed

lemma str_replace_set: "set (str_replace s old new) \<subseteq> set s \<union> set new"
  using replace_scan_set [of old new s] by (auto simp: str_replace_def)

lemma prefix_snoc_fresh: "x \<notin> set old \<Longrightarrow> prefix old (s @ [x]) \<longleftrightarrow> prefix old s"
  by (auto simp: prefix_snoc)

lemma replace_scan_snoc:
  "old \<noteq> [] \<Longrightarrow> x \<notin> set old \<Longrightarrow> replace_scan old new (s @ [x]) = replace_scan old new s @ [x]"
proof (induction old new s rule: replace_scan.induct)
  case (1 old new)
  then have "\<not> prefix old [x]" by (cases old) auto
  then show ?case by simp
next
  case (2 old new c cs)
  have p: "prefix old (c # cs @ [x]) \<longleftrightarrow> prefix old (c # cs)"
    using prefix_snoc_fresh [OF "2.prems"(2), of "c # cs"] by simp
  show ?case
  proof (cases "prefix old (c # cs)")
    case True
    then have "length old \<le> length (c # cs)" by (rule prefix_length_le)
    then have "drop (length old) (c # cs @ [x]) = drop (length old) (c # cs) @ [x]"
      by (metis append_Cons drop_append diff_is_0_eq drop0)
    with True p "2.prems" "2.IH"(1) show ?thesis by simp
  next
    case False
    with p "2.prems" "2.IH"(2) show ?thesis by simp
  qed
qed

lemma replace_scan_absent: "\<not> occurs old s \<Longrightarrow> replace_scan old new s = s"
  by (induction old new s rule: replace_scan.induct) auto

lemma str_replace_absent: "\<not> occurs old s \<Longrightarrow> str_replace s old new = s"
proof -
  assume a: "\<not> occurs old s"
  then have "old \<noteq> []" by (cases s) auto
  with a show ?thesis by (simp add: str_replace_def replace_scan_absent)
qed

section \<open>Splitting and joining at the separator\<close>

lemma str_split_not_Nil [simp]: "str_split s c \<noteq> []"
  by (induction s) (auto split: list.splits)

lemma str_join_split: "str_join c (str_split s c) = s"
proof (induction s)
  case Nil
  then show ?case by simp
next
  case (Cons x s)
  obtain w ws where r: "str_split s c = w # ws"
    by (cases "str_split s c") auto
  show ?case
  proof (cases "x = c")
    case True
    with Cons r show ?thesis by simp
  next
    case False
    with Cons r show ?thesis by (cases ws) auto
  qed
qed

lemma str_split_free: "w \<in> set (str_split s c) \<Longrightarrow> c \<notin> set w"
proof (induction s arbitrary: w)
  case Nil
  then show ?case by simp
next
  case (Cons x s)
  obtain v vs where r: "str_split s c = v # vs"
    by (cases "str_split s c") auto
  with Cons show ?case by (auto split: if_splits)
qed

lemma str_split_subset: "w \<in> set (str_split s c) \<Longrightarrow> set w \<subseteq> set s"
proof (induction s arbitrary: w)
  case Nil
  then show ?case by simp
next
  case (Cons x s)
  obtain v vs where r: "str_split s c = v # vs"
    by (cases "str_split s c") auto
  with Cons show ?case by (fastforce split: if_splits)
qed

lemma str_split_Cons_sep [simp]: "str_split (c # s) c = [] # str_split s c"
  by simp

lemma str_split_free_word: "c \<notin> set w \<Longrightarrow> str_split w c = [w]"
  by (induction w) auto

lemma str_split_word_sep: "c \<notin> set w \<Longrightarrow> str_split (w @ c # s) c = w # str_split s c"
  by (induction w) auto

lemma str_split_join:
  "cs \<noteq> [] \<Longrightarrow> \<forall>w \<in> set cs. c \<notin> set w \<Longrightarrow> str_split (str_join c cs) c = cs"
proof (induction c cs rule: str_join.induct)
  case (1 c)
  then show ?case by simp
next
  case (2 c x)
  then show ?case by (simp add: str_split_free_word)
next
  case (3 c x y ys)
  then show ?case by (simp add: str_split_word_sep)
qed

lemma str_split_snoc:
  "x \<noteq> c \<Longrightarrow> str_split (s @ [x]) c = butlast (str_split s c) @ [last (str_split s c) @ [x]]"
proof (induction s)
  case Nil
  then show ?case by simp
next
  case (Cons y s)
  obtain v vs where r: "str_split s c = v # vs"
    by (cases "str_split s c") auto
  have r': "str_split (s @ [x]) c = butlast (v # vs) @ [last (v # vs) @ [x]]"
    using Cons r by simp
  show ?case
  proof (cases "y = c")
    case True
    with r r' show ?thesis by simp
  next
    case False
    with r r' show ?thesis by (cases vs) auto
  qed
qed

lemma str_join_snoc:
  "cs \<noteq> [] \<Longrightarrow> str_join c (cs @ [w]) = str_join c cs @ c # w"
  by (induction c cs rule: str_join.induct) auto

lemma str_join_set: "set (str_join c cs) \<subseteq> {c} \<union> \<Union> (set ` set cs)"
  by (induction c cs rule: str_join.induct) auto

lemma str_join_eq_Nil: "\<forall>w \<in> set cs. w \<noteq> [] \<Longrightarrow> str_join c cs = [] \<longleftrightarrow> cs = []"
  by (induction c cs rule: str_join.induct) auto

subsection \<open>The component loop keeps a subsequence\<close>

lemma normpath_loop_append:
  "normpath_loop i acc (xs @ ys) = normpath_loop i (normpath_loop i acc xs) ys"
  by (induction xs arbitrary: acc) auto

lemma normpath_loop_subseq:
  "subseq acc acc' \<Longrightarrow> subseq (normpath_loop i acc comps) (acc' @ comps)"
proof (induction comps arbitrary: acc acc')
  case Nil
  then show ?case by simp
next
  case (Cons c comps)
  have skip: "subseq acc (acc' @ [c])"
    using Cons.prems by (rule subseq_rev_drop_many)
  have app: "subseq (acc @ [c]) (acc' @ [c])"
    using Cons.prems by simp
  have "subseq (butlast acc) acc"
    by (metis prefixeq_butlast prefix_imp_subseq)
  then have pop: "subseq (butlast acc) (acc' @ [c])"
    using skip subseq_order.trans by blast
  have steps: "normpath_loop i acc (c # comps) = normpath_loop i acc comps
             \<or> normpath_loop i acc (c # comps) = normpath_loop i (acc @ [c]) comps
             \<or> normpath_loop i acc (c # comps) = normpath_loop i (butlast acc) comps"
    by simp
  have "subseq (normpath_loop i acc comps) (acc' @ c # comps)"
    using Cons.IH [OF skip] by simp
  moreover have "subseq (normpath_loop i (acc @ [c]) comps) (acc' @ c # comps)"
    using Cons.IH [OF app] by simp
  moreover have "subseq (normpath_loop i (butlast acc) comps) (acc' @ c # comps)"
    using Cons.IH [OF pop] by simp
  ultimately show ?case
    using steps by presburger
qed

lemma normpath_loop_subset: "set (normpath_loop i [] comps) \<subseteq> set comps"
proof
  fix c
  assume mem: "c \<in> set (normpath_loop i [] comps)"
  have sub: "subseq (normpath_loop i [] comps) comps"
    using normpath_loop_subseq [of "[]" "[]" i comps] by simp
  obtain y where "y \<in> set comps" "c = y"
    using list_emb_set [OF sub mem] by blast
  then show "c \<in> set comps"
    by simp
qed

section \<open>The component lists of normalised paths\<close>

lemma dotdot_front_iff:
  "x \<notin> set (dropWhile (\<lambda>c. c = x) cs) \<longleftrightarrow> (\<exists>k rest. cs = replicate k x @ rest \<and> x \<notin> set rest)"
proof
  assume a: "x \<notin> set (dropWhile (\<lambda>c. c = x) cs)"
  have "set (takeWhile (\<lambda>c. c = x) cs) \<subseteq> {x}"
    by (auto dest: set_takeWhileD)
  then have "takeWhile (\<lambda>c. c = x) cs = replicate (length (takeWhile (\<lambda>c. c = x) cs)) x"
    by (metis replicate_eqI singletonD subsetD)
  then have "cs = replicate (length (takeWhile (\<lambda>c. c = x) cs)) x @ dropWhile (\<lambda>c. c = x) cs"
    by (metis takeWhile_dropWhile_id)
  with a show "\<exists>k rest. cs = replicate k x @ rest \<and> x \<notin> set rest" by blast
next
  assume "\<exists>k rest. cs = replicate k x @ rest \<and> x \<notin> set rest"
  then obtain k rest where cs: "cs = replicate k x @ rest" and r: "x \<notin> set rest" by blast
  have "dropWhile (\<lambda>c. c = x) cs = dropWhile (\<lambda>c. c = x) rest"
    unfolding cs by (induction k) auto
  then show "x \<notin> set (dropWhile (\<lambda>c. c = x) cs)"
    using r by (auto dest: set_dropWhileD)
qed

lemma replicate_snoc_same: "replicate k x @ [x] = replicate (Suc k) x"
  by (simp add: replicate_append_same)

lemma butlast_replicate_same: "butlast (replicate k x) = replicate (k - 1) x"
proof (cases k)
  case 0
  then show ?thesis by simp
next
  case (Suc n)
  have "butlast (replicate n x @ [x]) = replicate n x" by (rule butlast_snoc)
  then show ?thesis using Suc by (simp only: replicate_snoc_same diff_Suc_1)
qed

lemma normal_comps_Nil [simp]: "normal_comps i []"
  by (simp add: normal_comps_def)

lemma normal_comps_snoc_other:
  assumes "normal_comps i acc" "c \<noteq> []" "c \<noteq> ''.''" "c \<noteq> ''..''" "SEP \<notin> set c"
  shows "normal_comps i (acc @ [c])"
proof (cases "i = 0")
  case False
  with assms show ?thesis by (auto simp: normal_comps_def)
next
  case True
  with assms(1) obtain k rest where "acc = replicate k ''..'' @ rest" "''..'' \<notin> set rest"
    unfolding normal_comps_def using dotdot_front_iff [of "''..''" acc] by auto
  then have "acc @ [c] = replicate k ''..'' @ (rest @ [c]) \<and> ''..'' \<notin> set (rest @ [c])"
    using assms(4) by auto
  then have "''..'' \<notin> set (dropWhile (\<lambda>c. c = ''..'') (acc @ [c]))"
    using dotdot_front_iff [of "''..''" "acc @ [c]"] by blast
  with assms True show ?thesis by (auto simp: normal_comps_def)
qed

lemma normal_comps_dotdots:
  assumes "normal_comps i acc" "acc \<noteq> []" "last acc = ''..''"
  shows "i = 0 \<and> acc = replicate (length acc) ''..''"
proof -
  have mem: "''..'' \<in> set acc" using assms(2,3) last_in_set by metis
  then have i: "i = 0" using assms(1) by (auto simp: normal_comps_def split: if_splits)
  with assms(1) obtain k rest where acc: "acc = replicate k ''..'' @ rest" and r: "''..'' \<notin> set rest"
    unfolding normal_comps_def using dotdot_front_iff [of "''..''" acc] by auto
  have "rest = []"
  proof (rule ccontr)
    assume "rest \<noteq> []"
    then have "last acc = last rest" "last rest \<in> set rest" using acc by auto
    with r assms(3) show False by simp
  qed
  with acc have "acc = replicate k ''..''" by simp
  then have "acc = replicate (length acc) ''..''" by (metis length_replicate)
  with i show ?thesis by simp
qed

lemma normal_comps_snoc_dotdot:
  assumes "normal_comps i acc" "i = 0 \<and> acc = [] \<or> acc \<noteq> [] \<and> last acc = ''..''"
  shows "normal_comps i (acc @ [''..''])"
proof -
  have "i = 0 \<and> acc = replicate (length acc) ''..''"
    using assms normal_comps_dotdots [of i acc] by auto
  then obtain n where i: "i = 0" and "acc = replicate n ''..''"
    by blast
  then have "acc @ [''..''] = replicate (Suc n) ''..'' @ []"
    by (simp only: replicate_snoc_same append_Nil2)
  then have "''..'' \<notin> set (dropWhile (\<lambda>c. c = ''..'') (acc @ [''..'']))"
    using dotdot_front_iff [of "''..''" "acc @ [''..'']"] by (metis empty_iff list.set(1))
  with assms(1) i show ?thesis by (auto simp: normal_comps_def)
qed

lemma normal_comps_butlast:
  assumes "normal_comps i acc"
  shows "normal_comps i (butlast acc)"
proof (cases "i = 0")
  case False
  with assms show ?thesis by (auto simp: normal_comps_def dest: in_set_butlastD)
next
  case True
  with assms obtain k rest where acc: "acc = replicate k ''..'' @ rest" and r: "''..'' \<notin> set rest"
    unfolding normal_comps_def using dotdot_front_iff [of "''..''" acc] by auto
  have "\<exists>k' rest'. butlast acc = replicate k' ''..'' @ rest' \<and> ''..'' \<notin> set rest'"
  proof (cases "rest = []")
    case True
    with acc have "butlast acc = replicate (k - 1) ''..'' @ []"
      by (simp add: butlast_replicate_same del: replicate.simps)
    then show ?thesis by (metis empty_iff list.set(1))
  next
    case False
    with acc have "butlast acc = replicate k ''..'' @ butlast rest"
      by (simp add: butlast_append)
    moreover have "''..'' \<notin> set (butlast rest)" using r by (auto dest: in_set_butlastD)
    ultimately show ?thesis by blast
  qed
  then have "''..'' \<notin> set (dropWhile (\<lambda>c. c = ''..'') (butlast acc))"
    using dotdot_front_iff [of "''..''" "butlast acc"] by blast
  with assms True show ?thesis by (auto simp: normal_comps_def dest: in_set_butlastD)
qed

lemma normpath_loop_normal:
  "\<forall>c \<in> set comps. SEP \<notin> set c \<Longrightarrow> normal_comps i acc \<Longrightarrow>
   normal_comps i (normpath_loop i acc comps)"
proof (induction comps arbitrary: acc)
  case Nil
  then show ?case by simp
next
  case (Cons c comps)
  have free: "\<forall>c \<in> set comps. SEP \<notin> set c" "SEP \<notin> set c"
    using Cons.prems(1) by simp_all
  note IH = Cons.IH [OF free(1)]
  consider (skip) "c = [] \<or> c = ''.''"
    | (other) "c \<noteq> []" "c \<noteq> ''.''" "c \<noteq> ''..''"
    | (keep) "c = ''..''" "i = 0 \<and> acc = [] \<or> acc \<noteq> [] \<and> last acc = ''..''"
    | (pop) "c = ''..''" "\<not> (i = 0 \<and> acc = [] \<or> acc \<noteq> [] \<and> last acc = ''..'')" "acc \<noteq> []"
    | (drop) "c = ''..''" "\<not> (i = 0 \<and> acc = [] \<or> acc \<noteq> [] \<and> last acc = ''..'')" "acc = []"
    by blast
  then show ?case
  proof cases
    case skip
    then show ?thesis using IH [OF Cons.prems(2)] by auto
  next
    case other
    then show ?thesis
      using IH [OF normal_comps_snoc_other [OF Cons.prems(2) other free(2)]] by simp
  next
    case keep
    have "normpath_loop i acc (c # comps) = normpath_loop i (acc @ [''..'']) comps"
      using keep by auto
    then show ?thesis
      using IH [OF normal_comps_snoc_dotdot [OF Cons.prems(2) keep(2)]] by simp
  next
    case pop
    have "normpath_loop i acc (c # comps) = normpath_loop i (butlast acc) comps"
      using pop by auto
    then show ?thesis
      using IH [OF normal_comps_butlast [OF Cons.prems(2)]] by simp
  next
    case drop
    have "normpath_loop i acc (c # comps) = normpath_loop i acc comps"
      using drop by auto
    then show ?thesis using IH [OF Cons.prems(2)] by simp
  qed
qed

lemma normpath_loop_fixed:
  "normal_comps i (acc @ cs) \<Longrightarrow> normpath_loop i acc cs = acc @ cs"
proof (induction cs arbitrary: acc)
  case Nil
  then show ?case by simp
next
  case (Cons c cs)
  have n: "normal_comps i ((acc @ [c]) @ cs)" using Cons.prems by simp
  have c: "c \<noteq> []" "c \<noteq> ''.''"
    using Cons.prems by (auto simp: normal_comps_def)
  show ?case
  proof (cases "c = ''..''")
    case False
    with c show ?thesis using Cons.IH [OF n] by simp
  next
    case True
    then have mem: "''..'' \<in> set (acc @ c # cs)" by simp
    then have i: "i = 0" using Cons.prems by (auto simp: normal_comps_def split: if_splits)
    with Cons.prems obtain k rest where e: "acc @ c # cs = replicate k ''..'' @ rest" and r: "''..'' \<notin> set rest"
      unfolding normal_comps_def using dotdot_front_iff [of "''..''" "acc @ c # cs"] by auto
    from e obtain us where "acc = replicate k ''..'' @ us \<and> us @ c # cs = rest \<or> acc @ us = replicate k ''..'' \<and> c # cs = us @ rest"
      by (auto simp: append_eq_append_conv2)
    then have "set acc \<subseteq> {''..''}"
    proof
      assume "acc = replicate k ''..'' @ us \<and> us @ c # cs = rest"
      with r True show ?thesis by auto
    next
      assume "acc @ us = replicate k ''..'' \<and> c # cs = us @ rest"
      then have "set (acc @ us) \<subseteq> {''..''}" by (metis set_replicate_conv_if subset_refl empty_subsetI)
      then show ?thesis by simp
    qed
    then have "acc = [] \<or> last acc = ''..''"
      using last_in_set by fastforce
    with i True have "normpath_loop i acc (c # cs) = normpath_loop i (acc @ [c]) cs"
      by auto
    then show ?thesis using Cons.IH [OF n] by simp
  qed
qed

lemma normpath_loop_skip_empty:
  "normpath_loop i acc (replicate k [] @ cs) = normpath_loop i acc cs"
  by (induction k) auto

section \<open>Normalising a path twice\<close>

lemma initial_slashes_of_le: "initial_slashes_of s \<le> 2"
  by (simp add: initial_slashes_of_def)

lemma initial_slashes_of_pos: "0 < initial_slashes_of s \<longleftrightarrow> prefix [SEP] s"
  by (simp add: initial_slashes_of_def)

lemma normpath_comps_normal:
  "normal_comps i (normpath_loop i [] (str_split s SEP))"
  by (rule normpath_loop_normal) (auto dest: str_split_free)

lemma normal_comps_join_eq_Nil: "normal_comps i R \<Longrightarrow> str_join SEP R = [] \<longleftrightarrow> R = []"
  by (rule str_join_eq_Nil) (simp add: normal_comps_def)

lemma os_path_normpath_eq:
  "os_path_normpath s =
     (if initial_slashes_of s = 0 \<and> normpath_loop (initial_slashes_of s) [] (str_split s SEP) = []
      then ''.''
      else replicate (initial_slashes_of s) SEP
           @ str_join SEP (normpath_loop (initial_slashes_of s) [] (str_split s SEP)))"
proof (cases "s = []")
  case True
  then show ?thesis by (simp add: os_path_normpath_def initial_slashes_of_def)
next
  case False
  have "str_join SEP (normpath_loop (initial_slashes_of s) [] (str_split s SEP)) = []
        \<longleftrightarrow> normpath_loop (initial_slashes_of s) [] (str_split s SEP) = []"
    using normpath_comps_normal by (rule normal_comps_join_eq_Nil)
  with False show ?thesis
    by (auto simp: os_path_normpath_def Let_def)
qed

lemma str_join_hd_not_sep:
  "normal_comps i R \<Longrightarrow> \<not> prefix [SEP] (str_join SEP R)"
proof (cases R)
  case Nil
  then show ?thesis by simp
next
  case (Cons c cs)
  assume "normal_comps i R"
  with Cons have "c \<noteq> []" "SEP \<notin> set c" by (auto simp: normal_comps_def)
  then obtain x xs where "c = x # xs" "x \<noteq> SEP" by (cases c) auto
  with Cons show ?thesis by (cases cs) auto
qed

lemma initial_slashes_of_normal:
  assumes "normal_comps i R" "i \<le> 2"
  shows "initial_slashes_of (replicate i SEP @ str_join SEP R) = i"
proof -
  have n: "\<not> prefix [SEP] (str_join SEP R)" using assms(1) by (rule str_join_hd_not_sep)
  consider "i = 0" | "i = 1" | "i = 2" using assms(2) by linarith
  then show ?thesis
  proof cases
    case 1
    with n show ?thesis by (simp add: initial_slashes_of_def)
  next
    case 2
    with n show ?thesis by (cases "str_join SEP R") (auto simp: initial_slashes_of_def)
  next
    case 3
    then have "replicate i SEP = [SEP, SEP]" by (simp add: numeral_2_eq_2)
    with n 3 show ?thesis by (cases "str_join SEP R") (auto simp: initial_slashes_of_def)
  qed
qed

lemma str_split_slashes:
  "str_split (replicate i SEP @ s) SEP = replicate i [] @ str_split s SEP"
  by (induction i) auto

lemma normpath_loop_of_normal:
  assumes "normal_comps i R"
  shows "normpath_loop i [] (str_split (replicate i SEP @ str_join SEP R) SEP) = R"
proof (cases "R = []")
  case True
  have "normpath_loop i [] (replicate i [] @ [[]]) = []"
    by (simp only: normpath_loop_skip_empty) simp
  then show ?thesis
    using True str_split_slashes [of i "[]"] by simp
next
  case False
  have "\<forall>w \<in> set R. SEP \<notin> set w" using assms by (simp add: normal_comps_def)
  with False have "str_split (str_join SEP R) SEP = R" by (rule str_split_join)
  then show ?thesis
    using normpath_loop_fixed [of i "[]" R] assms
    by (simp add: str_split_slashes normpath_loop_skip_empty)
qed

lemma os_path_normpath_dot: "os_path_normpath ''.'' = ''.''"
  by (simp add: os_path_normpath_def initial_slashes_of_def)

lemma os_path_normpath_idem: "os_path_normpath (os_path_normpath s) = os_path_normpath s"
proof -
  define i where "i = initial_slashes_of s"
  define R where "R = normpath_loop i [] (str_split s SEP)"
  have n: "normal_comps i R" unfolding R_def by (rule normpath_comps_normal)
  have i2: "i \<le> 2" unfolding i_def by (rule initial_slashes_of_le)
  have out: "os_path_normpath s = (if i = 0 \<and> R = [] then ''.'' else replicate i SEP @ str_join SEP R)"
    unfolding i_def R_def by (rule os_path_normpath_eq)
  show ?thesis
  proof (cases "i = 0 \<and> R = []")
    case True
    with out show ?thesis by (simp add: os_path_normpath_dot)
  next
    case False
    let ?o = "replicate i SEP @ str_join SEP R"
    have o: "os_path_normpath s = ?o" using out False by simp
    have a: "initial_slashes_of ?o = i" using n i2 by (rule initial_slashes_of_normal)
    have b: "normpath_loop i [] (str_split ?o SEP) = R" using n by (rule normpath_loop_of_normal)
    have "os_path_normpath ?o = (if i = 0 \<and> R = [] then ''.'' else ?o)"
      using os_path_normpath_eq [of ?o] by (simp only: a b)
    with False o show ?thesis by simp
  qed
qed

section \<open>The shape of the rewritten lines\<close>

lemma os_path_normpath_not_Nil: "os_path_normpath s \<noteq> []"
proof -
  have "str_join SEP (normpath_loop (initial_slashes_of s) [] (str_split s SEP)) = []
        \<longleftrightarrow> normpath_loop (initial_slashes_of s) [] (str_split s SEP) = []"
    using normpath_comps_normal by (rule normal_comps_join_eq_Nil)
  then show ?thesis
    by (auto simp: os_path_normpath_eq)
qed

lemma normpath_comps_chars:
  "w \<in> set (normpath_loop i [] (str_split s SEP)) \<Longrightarrow> set w \<subseteq> set s"
  using normpath_loop_subset [of i "str_split s SEP"] str_split_subset [of w s SEP] by blast

lemma os_path_normpath_set: "set (os_path_normpath s) \<subseteq> set s \<union> {SEP, DOT}"
proof -
  let ?R = "normpath_loop (initial_slashes_of s) [] (str_split s SEP)"
  have "set (str_join SEP ?R) \<subseteq> {SEP} \<union> \<Union> (set ` set ?R)" by (rule str_join_set)
  moreover have "\<Union> (set ` set ?R) \<subseteq> set s" using normpath_comps_chars by blast
  ultimately have "set (replicate (initial_slashes_of s) SEP @ str_join SEP ?R) \<subseteq> set s \<union> {SEP}"
    by auto
  then show ?thesis
    by (auto simp: os_path_normpath_eq)
qed

lemma str_join_snoc_cases:
  "str_join c (cs @ [w]) = (if cs = [] then w else str_join c cs @ c # w)"
  by (simp add: str_join_snoc)

lemma os_path_normpath_snoc:
  assumes "x \<noteq> SEP" "x \<noteq> DOT"
  shows "\<exists>X. os_path_normpath (b @ [x]) = X @ [x] \<and> set X \<subseteq> set b \<union> {SEP}"
proof -
  define i where "i = initial_slashes_of (b @ [x])"
  define cs where "cs = butlast (str_split b SEP)"
  define w where "w = last (str_split b SEP)"
  define R0 where "R0 = normpath_loop i [] cs"
  have sp: "str_split (b @ [x]) SEP = cs @ [w @ [x]]"
    unfolding cs_def w_def using assms(1) by (rule str_split_snoc)
  have wx: "w @ [x] \<noteq> []" "w @ [x] \<noteq> ''.''" "w @ [x] \<noteq> ''..''"
    using assms(2) by (auto simp: append_eq_Cons_conv)
  have "normpath_loop i [] (cs @ [w @ [x]]) = normpath_loop i R0 [w @ [x]]"
    unfolding R0_def by (rule normpath_loop_append)
  also have "\<dots> = R0 @ [w @ [x]]" using wx by simp
  finally have R: "normpath_loop i [] (str_split (b @ [x]) SEP) = R0 @ [w @ [x]]"
    using sp by simp
  define Y where "Y = replicate i SEP @ (if R0 = [] then [] else str_join SEP R0 @ [SEP])"
  have out: "os_path_normpath (b @ [x]) = (Y @ w) @ [x]"
    using os_path_normpath_eq [of "b @ [x]"] R
    by (simp add: i_def [symmetric] Y_def str_join_snoc_cases)
  have "str_split b SEP = cs @ [w]"
    unfolding cs_def w_def by simp
  then have mem: "set cs \<subseteq> set (str_split b SEP)" "w \<in> set (str_split b SEP)"
    by auto
  have wsub: "set w \<subseteq> set b" using mem(2) by (rule str_split_subset)
  have "set R0 \<subseteq> set cs" unfolding R0_def by (rule normpath_loop_subset)
  then have "\<Union> (set ` set R0) \<subseteq> set b"
    using mem(1) str_split_subset [of _ b SEP] by blast
  moreover have "set (str_join SEP R0) \<subseteq> {SEP} \<union> \<Union> (set ` set R0)" by (rule str_join_set)
  ultimately have "set (str_join SEP R0) \<subseteq> set b \<union> {SEP}"
    by blast
  then have "set Y \<subseteq> set b \<union> {SEP}"
    unfolding Y_def by auto
  with wsub have "set (Y @ w) \<subseteq> set b \<union> {SEP}" by auto
  with out show ?thesis by blast
qed

lemma sanitized_line_set:
  "set (os_path_normpath (str_replace l tgt cur)) \<subseteq> set l \<union> set cur \<union> {SEP, DOT}"
  using os_path_normpath_set [of "str_replace l tgt cur"] str_replace_set [of l tgt cur] by blast

lemma sanitized_line_terminated:
  assumes "tgt \<noteq> []" "LF \<notin> set tgt" "LF \<notin> set cur" "LF \<notin> set b"
  shows "\<exists>X. os_path_normpath (str_replace (b @ [LF]) tgt cur) = X @ [LF] \<and> LF \<notin> set X"
proof -
  have r: "str_replace (b @ [LF]) tgt cur = replace_scan tgt cur b @ [LF]"
    using assms(1,2) by (simp add: str_replace_def replace_scan_snoc)
  have "LF \<notin> set (replace_scan tgt cur b)"
    using replace_scan_set [of tgt cur b] assms(3,4) by auto
  moreover obtain X where "os_path_normpath (replace_scan tgt cur b @ [LF]) = X @ [LF]"
      "set X \<subseteq> set (replace_scan tgt cur b) \<union> {SEP}"
    using os_path_normpath_snoc [of LF "replace_scan tgt cur b"] by auto
  ultimately show ?thesis using r by auto
qed

lemma newlines_wf:
  assumes "lines_wf fin" "tgt \<noteq> []" "LF \<notin> set tgt" "LF \<notin> set cur"
  shows "lines_wf (newlines cur tgt fin)"
proof -
  let ?f = "\<lambda>line. os_path_normpath (str_replace line tgt cur)"
  have one: "?f l \<noteq> [] \<and> LF \<notin> set (butlast (?f l)) \<and> (last l = LF \<longrightarrow> last (?f l) = LF)"
    if "l \<in> set fin" for l
  proof -
    from that assms(1) have l: "l \<noteq> []" "LF \<notin> set (butlast l)" by (auto simp: lines_wf_def)
    then show ?thesis
    proof (cases rule: line_cases)
      case (terminated b)
      then obtain X where "?f l = X @ [LF]" "LF \<notin> set X"
        using sanitized_line_terminated [OF assms(2,3,4), of b] by auto
      then show ?thesis by simp
    next
      case unterminated
      then have "LF \<notin> set (?f l)"
        using sanitized_line_set [of l tgt cur] assms(4) by auto
      moreover have "last l \<noteq> LF" using unterminated l(1) last_in_set by metis
      ultimately show ?thesis
        using os_path_normpath_not_Nil by (auto dest: in_set_butlastD)
    qed
  qed
  have "\<forall>l \<in> set (map ?f fin). l \<noteq> [] \<and> LF \<notin> set (butlast l)"
    using one by auto
  moreover have "\<forall>l \<in> set (butlast (map ?f fin)). last l = LF"
  proof
    fix m assume "m \<in> set (butlast (map ?f fin))"
    then obtain l where "l \<in> set (butlast fin)" "m = ?f l"
      by (auto simp: map_butlast [symmetric])
    moreover from this assms(1) have "last l = LF" "l \<in> set fin"
      by (auto simp: lines_wf_def dest: in_set_butlastD)
    ultimately show "last m = LF" using one by blast
  qed
  ultimately show ?thesis by (simp add: lines_wf_def newlines_def)
qed

lemma newlines_no_CR:
  assumes "\<forall>l \<in> set fin. CR \<notin> set l" "CR \<notin> set cur"
  shows "\<forall>l \<in> set (newlines cur tgt fin). CR \<notin> set l"
  using assms sanitized_line_set [of _ tgt cur] by (fastforce simp: newlines_def)

lemma read_lines_newlines:
  assumes "tgt \<noteq> []" "LF \<notin> set tgt" "LF \<notin> set cur" "CR \<notin> set cur"
  shows "read_lines (concat (newlines cur tgt (read_lines t))) = newlines cur tgt (read_lines t)"
proof (rule read_lines_concat)
  show "lines_wf (newlines cur tgt (read_lines t))"
    using read_lines_wf assms(1,2,3) by (rule newlines_wf)
  show "\<forall>l\<in>set (newlines cur tgt (read_lines t)). CR \<notin> set l"
    using read_lines_no_CR assms(4) by (intro newlines_no_CR) auto
qed

section \<open>The repair keeps the lines\<close>

lemma gz_read_Inr:
  "fst (gz_read gzfile w) = Inr fin \<longleftrightarrow> (\<exists>t. files w (resolve w gzfile) = Some (GzText t) \<and> fin = read_lines t)"
  by (auto simp: gz_read_def Let_def split: option.splits gzdata.splits)

lemma sanitize_synctex_readable:
  assumes "files w (resolve w gzfile) = Some (GzText t)"
  shows "sanitize_synctex gzfile cur tgt w
           = (Inr (), w\<lparr>files := (files w)(resolve w gzfile \<mapsto> GzText (concat (newlines cur tgt (read_lines t)))),
                         trace := trace w @ [GzOpen gzfile ''rt'', GzOpen gzfile ''wt'']\<rparr>)"
  using assms by (simp add: sanitize_synctex_def gz_read_def gz_write_def resolve_def Let_def)

lemma sanitize_synctex_reread:
  assumes "fst (gz_read gzfile w) = Inr fin"
  shows "fst (sanitize_synctex gzfile cur tgt w) = Inr ()
       \<and> fst (gz_read gzfile (snd (sanitize_synctex gzfile cur tgt w)))
           = Inr (read_lines (concat (newlines cur tgt fin)))"
proof -
  from assms obtain t where t: "files w (resolve w gzfile) = Some (GzText t)" "fin = read_lines t"
    by (auto simp: gz_read_Inr)
  show ?thesis
    unfolding sanitize_synctex_readable [OF t(1)] using t(2)
    by (simp add: gz_read_def resolve_def Let_def)
qed

text \<open>
  Claim C5, amended. When the target directory is not empty and neither directory string
  holds a line break, \<open>sanitize_synctex\<close> on a readable mapping file succeeds, and reading
  the file again gives as many lines as before, the k-th of them being the k-th line
  read, rewritten: the target directory replaced by the current directory, then
  normalised as a path. (A line break inside the current directory would be written into
  every rewritten path and split the line in two.)
\<close>

theorem repair_preserves_lines:
  assumes "fst (gz_read gzfile w) = Inr fin"
    and "target_directory \<noteq> []" and "LF \<notin> set target_directory"
    and "LF \<notin> set current_directory" and "CR \<notin> set current_directory"
  shows "fst (sanitize_synctex gzfile current_directory target_directory w) = Inr ()
       \<and> (\<exists>fout. fst (gz_read gzfile (snd (sanitize_synctex gzfile current_directory target_directory w)))
                    = Inr fout
                \<and> length fout = length fin
                \<and> fout = map (\<lambda>line. os_path_normpath (str_replace line target_directory current_directory)) fin)"
proof -
  from assms(1) obtain t where t: "fin = read_lines t"
    by (auto simp: gz_read_Inr)
  have "read_lines (concat (newlines current_directory target_directory fin))
          = newlines current_directory target_directory fin"
    unfolding t using assms(2-5) by (rule read_lines_newlines)
  then show ?thesis
    using sanitize_synctex_reread [OF assms(1), of current_directory target_directory]
    by (simp add: newlines_def)
qed

lemmas eval_defs =
  gz_read_def sanitize_synctex_def gz_write_def resolve_def os_path_join_def read_lines_def
  newlines_def str_replace_def os_path_normpath_def initial_slashes_of_def Let_def suffix_to_prefix

theorem repair_preserves_lines_witness:
  "fst (gz_read ''n.gz'' \<lparr>cwd = ''/d'', files = [''/d/n.gz'' \<mapsto> GzText (''/tmp/t//n'' @ [CR, LF] @ ''x'')], trace = []\<rparr>)
     = Inr [''/tmp/t//n'' @ [LF], ''x'']
   \<and> ''/tmp'' \<noteq> [] \<and> LF \<notin> set ''/tmp'' \<and> LF \<notin> set ''/h'' \<and> CR \<notin> set ''/h''
   \<and> (\<exists>fout. fst (gz_read ''n.gz'' (snd (sanitize_synctex ''n.gz'' ''/h'' ''/tmp''
          \<lparr>cwd = ''/d'', files = [''/d/n.gz'' \<mapsto> GzText (''/tmp/t//n'' @ [CR, LF] @ ''x'')], trace = []\<rparr>)))
          = Inr fout
        \<and> length fout = length [''/tmp/t//n'' @ [LF], ''x'']
        \<and> fout = map (\<lambda>line. os_path_normpath (str_replace line ''/tmp'' ''/h'')) [''/tmp/t//n'' @ [LF], ''x''])"
proof -
  let ?w = "\<lparr>cwd = ''/d'', files = [''/d/n.gz'' \<mapsto> GzText (''/tmp/t//n'' @ [CR, LF] @ ''x'')], trace = []\<rparr>"
  have h1: "fst (gz_read ''n.gz'' ?w) = Inr [''/tmp/t//n'' @ [LF], ''x'']"
    by (simp add: gz_read_def resolve_def os_path_join_def read_lines_def Let_def suffix_to_prefix)
  have h2: "''/tmp'' \<noteq> []" "LF \<notin> set ''/tmp''" "LF \<notin> set ''/h''" "CR \<notin> set ''/h''"
    by simp_all
  from repair_preserves_lines [OF h1 h2] h1 h2 show ?thesis
    by blast
qed

theorem repair_line_count_counterexample:
  "fst (gz_read ''n.gz'' \<lparr>cwd = ''/d'', files = [''/d/n.gz'' \<mapsto> GzText (''/tmp/n'' @ [LF])], trace = []\<rparr>)
     = Inr [''/tmp/n'' @ [LF]]
   \<and> fst (gz_read ''n.gz'' (snd (sanitize_synctex ''n.gz'' (''/h'' @ [LF] @ ''p'') ''/tmp''
          \<lparr>cwd = ''/d'', files = [''/d/n.gz'' \<mapsto> GzText (''/tmp/n'' @ [LF])], trace = []\<rparr>)))
     = Inr [''/h'' @ [LF], ''p/n'' @ [LF]]
   \<and> length [''/tmp/n'' @ [LF]] \<noteq> length [''/h'' @ [LF], ''p/n'' @ [LF]]"
  by (simp add: eval_defs)

section \<open>Repairing twice\<close>

lemma sanitized_line_fixed:
  assumes "l = os_path_normpath (str_replace l0 tgt cur)" "\<not> occurs tgt l"
  shows "os_path_normpath (str_replace l tgt cur) = l"
proof -
  have "str_replace l tgt cur = l" using assms(2) by (rule str_replace_absent)
  then show ?thesis using assms(1) by (simp add: os_path_normpath_idem)
qed

lemma newlines_fixed:
  assumes "\<forall>l \<in> set (newlines cur tgt fin). \<not> occurs tgt l"
  shows "newlines cur tgt (newlines cur tgt fin) = newlines cur tgt fin"
proof -
  have "os_path_normpath (str_replace l tgt cur) = l" if "l \<in> set (newlines cur tgt fin)" for l
  proof -
    from that obtain l0 where "l = os_path_normpath (str_replace l0 tgt cur)"
      by (auto simp: newlines_def)
    moreover have "\<not> occurs tgt l" using that assms by blast
    ultimately show ?thesis by (rule sanitized_line_fixed)
  qed
  then have "map (\<lambda>line. os_path_normpath (str_replace line tgt cur)) (newlines cur tgt fin)
             = newlines cur tgt fin"
    by (simp add: map_idI)
  then show ?thesis by (simp add: newlines_def)
qed

text \<open>
  Claim C4, amended. Let a first application of \<open>sanitize_synctex\<close> to a readable mapping
  file leave no line that contains the target directory, the target directory being
  non-empty and both directory strings free of line breaks. Then a second application
  with the same parameters succeeds and leaves the decompressed text of every file as
  the first one left it: nothing is replaced, and normalising a normalised line changes
  nothing. The statement is about the text of the files, not about their compressed
  bytes: the second application writes the mapping file again. (When the
  current directory itself contains the target directory, as \<open>/h/tmp\<close> contains
  \<open>/tmp\<close>, the first application puts new occurrences into the file and the second one
  rewrites them again.)
\<close>

theorem repair_twice_is_noop:
  assumes "fst (gz_read gzfile w) = Inr fin"
    and "target_directory \<noteq> []" and "LF \<notin> set target_directory"
    and "LF \<notin> set current_directory" and "CR \<notin> set current_directory"
    and "w1 = snd (sanitize_synctex gzfile current_directory target_directory w)"
    and "fst (gz_read gzfile w1) = Inr fout"
    and "\<forall>l \<in> set fout. \<not> occurs target_directory l"
  shows "fst (sanitize_synctex gzfile current_directory target_directory w1) = Inr ()
       \<and> files (snd (sanitize_synctex gzfile current_directory target_directory w1)) = files w1"
proof -
  let ?L = "newlines current_directory target_directory fin"
  from assms(1) obtain t where t: "files w (resolve w gzfile) = Some (GzText t)" "fin = read_lines t"
    by (auto simp: gz_read_Inr)
  have w1: "w1 = w\<lparr>files := (files w)(resolve w gzfile \<mapsto> GzText (concat ?L)),
                    trace := trace w @ [GzOpen gzfile ''rt'', GzOpen gzfile ''wt'']\<rparr>"
    using assms(6) t by (simp add: sanitize_synctex_readable)
  then have r1: "resolve w1 gzfile = resolve w gzfile"
    by (simp add: resolve_def)
  have f1: "files w1 (resolve w1 gzfile) = Some (GzText (concat ?L))"
    unfolding r1 by (simp add: w1)
  have rl: "read_lines (concat ?L) = ?L"
    unfolding t(2) using assms(2-5) by (rule read_lines_newlines)
  have "fout = ?L"
    using assms(7) f1 rl by (auto simp: gz_read_Inr)
  with assms(8) have "newlines current_directory target_directory ?L = ?L"
    by (intro newlines_fixed) simp
  then show ?thesis
    unfolding sanitize_synctex_readable [OF f1] using f1 rl r1
    by (simp add: w1 fun_upd_idem_iff)
qed

theorem repair_twice_is_noop_witness:
  "fst (gz_read ''n.gz'' \<lparr>cwd = ''/d'', files = [''/d/n.gz'' \<mapsto> GzText (''/tmp/t//n'' @ [LF])], trace = []\<rparr>)
     = Inr [''/tmp/t//n'' @ [LF]]
   \<and> ''/tmp'' \<noteq> [] \<and> LF \<notin> set ''/tmp'' \<and> LF \<notin> set ''/h'' \<and> CR \<notin> set ''/h''
   \<and> fst (gz_read ''n.gz'' (snd (sanitize_synctex ''n.gz'' ''/h'' ''/tmp''
         \<lparr>cwd = ''/d'', files = [''/d/n.gz'' \<mapsto> GzText (''/tmp/t//n'' @ [LF])], trace = []\<rparr>)))
       = Inr [''/h/t/n'' @ [LF]]
   \<and> \<not> occurs ''/tmp'' (''/h/t/n'' @ [LF])
   \<and> files (snd (sanitize_synctex ''n.gz'' ''/h'' ''/tmp''
         (snd (sanitize_synctex ''n.gz'' ''/h'' ''/tmp''
            \<lparr>cwd = ''/d'', files = [''/d/n.gz'' \<mapsto> GzText (''/tmp/t//n'' @ [LF])], trace = []\<rparr>))))
       = files (snd (sanitize_synctex ''n.gz'' ''/h'' ''/tmp''
            \<lparr>cwd = ''/d'', files = [''/d/n.gz'' \<mapsto> GzText (''/tmp/t//n'' @ [LF])], trace = []\<rparr>))"
proof -
  let ?w = "\<lparr>cwd = ''/d'', files = [''/d/n.gz'' \<mapsto> GzText (''/tmp/t//n'' @ [LF])], trace = []\<rparr>"
  have h1: "fst (gz_read ''n.gz'' ?w) = Inr [''/tmp/t//n'' @ [LF]]"
    by (simp add: gz_read_def resolve_def os_path_join_def read_lines_def Let_def suffix_to_prefix)
  have h2: "''/tmp'' \<noteq> []" "LF \<notin> set ''/tmp''" "LF \<notin> set ''/h''" "CR \<notin> set ''/h''"
    by simp_all
  have h7: "fst (gz_read ''n.gz'' (snd (sanitize_synctex ''n.gz'' ''/h'' ''/tmp'' ?w))) = Inr [''/h/t/n'' @ [LF]]"
    by (simp add: eval_defs)
  have h8: "\<forall>l \<in> set [''/h/t/n'' @ [LF]]. \<not> occurs ''/tmp'' l"
    by simp
  have h9: "\<not> occurs ''/tmp'' (''/h/t/n'' @ [LF])"
    by simp
  from repair_twice_is_noop [OF h1 h2 refl h7 h8] h1 h2 h7 h9 show ?thesis
    by blast
qed

theorem repair_twice_counterexample:
  "files (snd (sanitize_synctex ''n.gz'' ''/h/tmp'' ''/tmp''
      \<lparr>cwd = ''/d'', files = [''/d/n.gz'' \<mapsto> GzText (''/tmp/n'' @ [LF])], trace = []\<rparr>)) ''/d/n.gz''
     = Some (GzText (''/h/tmp/n'' @ [LF]))
   \<and> files (snd (sanitize_synctex ''n.gz'' ''/h/tmp'' ''/tmp''
        (snd (sanitize_synctex ''n.gz'' ''/h/tmp'' ''/tmp''
           \<lparr>cwd = ''/d'', files = [''/d/n.gz'' \<mapsto> GzText (''/tmp/n'' @ [LF])], trace = []\<rparr>)))) ''/d/n.gz''
     = Some (GzText (''/h/h/tmp/n'' @ [LF]))
   \<and> ''/h/tmp/n'' @ [LF] \<noteq> ''/h/h/tmp/n'' @ [LF]"
  by (simp add: eval_defs)

section \<open>Lines without the target directory\<close>

lemma newlines_nth:
  "k < length fin \<Longrightarrow> newlines cur tgt fin ! k = os_path_normpath (str_replace (fin ! k) tgt cur)"
  by (simp add: newlines_def)

lemma newlines_normalised:
  "l \<in> set (newlines cur tgt fin) \<Longrightarrow> os_path_normpath l = l"
  by (auto simp: newlines_def os_path_normpath_idem)

text \<open>
  Claim C10. \<open>sanitize_synctex\<close> writes back, for every line read, the normalisation of
  the line after replacement, whether or not the line contains the target directory. For
  a line that does not contain it the replacement changes nothing, so what is written
  is the normalisation of the line as it was; such a line can still change: \<open>a//b\<close>
  becomes \<open>a/b\<close>.
\<close>

theorem untouched_lines_are_normalised:
  assumes "fst (gz_read gzfile w) = Inr fin"
  shows "(\<exists>t'. files (snd (sanitize_synctex gzfile current_directory target_directory w)) (resolve w gzfile)
                 = Some (GzText t')
              \<and> t' = concat (map (\<lambda>line. os_path_normpath (str_replace line target_directory current_directory)) fin))
       \<and> (\<forall>line \<in> set fin. \<not> occurs target_directory line \<longrightarrow>
             os_path_normpath (str_replace line target_directory current_directory) = os_path_normpath line)
       \<and> \<not> occurs ''/tmp'' (''a//b'' @ [LF])
       \<and> os_path_normpath (str_replace (''a//b'' @ [LF]) ''/tmp'' ''/h'') = ''a/b'' @ [LF]"
proof -
  from assms obtain t where t: "files w (resolve w gzfile) = Some (GzText t)" "fin = read_lines t"
    by (auto simp: gz_read_Inr)
  have a: "\<exists>t'. files (snd (sanitize_synctex gzfile current_directory target_directory w)) (resolve w gzfile)
                 = Some (GzText t')
              \<and> t' = concat (map (\<lambda>line. os_path_normpath (str_replace line target_directory current_directory)) fin)"
    unfolding sanitize_synctex_readable [OF t(1)] using t(2) by (simp add: newlines_def)
  have b: "\<forall>line \<in> set fin. \<not> occurs target_directory line \<longrightarrow>
             os_path_normpath (str_replace line target_directory current_directory) = os_path_normpath line"
    by (simp add: str_replace_absent)
  have c: "\<not> occurs ''/tmp'' (''a//b'' @ [LF])" by simp
  have d: "os_path_normpath (str_replace (''a//b'' @ [LF]) ''/tmp'' ''/h'') = ''a/b'' @ [LF]"
    by (simp add: str_replace_def os_path_normpath_def initial_slashes_of_def Let_def)
  from a b c d show ?thesis by blast
qed

theorem untouched_lines_are_normalised_witness:
  "fst (gz_read ''n.gz'' \<lparr>cwd = ''/d'', files = [''/d/n.gz'' \<mapsto> GzText (''a//b'' @ [LF])], trace = []\<rparr>)
     = Inr [''a//b'' @ [LF]]
   \<and> files (snd (sanitize_synctex ''n.gz'' ''/h'' ''/tmp''
        \<lparr>cwd = ''/d'', files = [''/d/n.gz'' \<mapsto> GzText (''a//b'' @ [LF])], trace = []\<rparr>))
        (resolve \<lparr>cwd = ''/d'', files = [''/d/n.gz'' \<mapsto> GzText (''a//b'' @ [LF])], trace = []\<rparr> ''n.gz'')
       = Some (GzText (''a/b'' @ [LF]))
   \<and> \<not> occurs ''/tmp'' (''a//b'' @ [LF])
   \<and> os_path_normpath (str_replace (''a//b'' @ [LF]) ''/tmp'' ''/h'') = os_path_normpath (''a//b'' @ [LF])"
proof -
  let ?w = "\<lparr>cwd = ''/d'', files = [''/d/n.gz'' \<mapsto> GzText (''a//b'' @ [LF])], trace = []\<rparr>"
  have h1: "fst (gz_read ''n.gz'' ?w) = Inr [''a//b'' @ [LF]]"
    by (simp add: gz_read_def resolve_def os_path_join_def read_lines_def Let_def suffix_to_prefix)
  have n: "\<not> occurs ''/tmp'' (''a//b'' @ [LF])" by simp
  have v: "os_path_normpath (str_replace (''a//b'' @ [LF]) ''/tmp'' ''/h'') = ''a/b'' @ [LF]"
    by (simp add: str_replace_def os_path_normpath_def initial_slashes_of_def Let_def)
  from untouched_lines_are_normalised [OF h1, of "''/h''" "''/tmp''"]
  have "files (snd (sanitize_synctex ''n.gz'' ''/h'' ''/tmp'' ?w)) (resolve ?w ''n.gz'')
          = Some (GzText (concat (map (\<lambda>line. os_path_normpath (str_replace line ''/tmp'' ''/h'')) [''a//b'' @ [LF]])))"
    and "os_path_normpath (str_replace (''a//b'' @ [LF]) ''/tmp'' ''/h'') = os_path_normpath (''a//b'' @ [LF])"
    using n by auto
  with h1 n v show ?thesis by simp
qed

section \<open>Rewritten lines are normalised paths\<close>

lemma occurs_set: "occurs old s \<Longrightarrow> set old \<subseteq> set s"
  by (simp add: occurs_iff_sublist set_mono_sublist)















section \<open>Cutting a line at the occurrences\<close>

lemma split_scan_not_Nil [simp]: "split_scan old s \<noteq> []"
  by (induction old s rule: split_scan.induct) (auto split: list.splits)

lemma join_with_Cons: "ps \<noteq> [] \<Longrightarrow> join_with new (p # ps) = p @ new @ join_with new ps"
  by (cases ps) auto

lemma join_with_Cons_hd:
  "ps \<noteq> [] \<Longrightarrow> join_with new ((c # hd ps) # tl ps) = c # join_with new ps"
  by (cases ps; cases "tl ps") auto

lemma split_scan_step:
  "\<not> (old \<noteq> [] \<and> prefix old (c # cs)) \<Longrightarrow>
   split_scan old (c # cs) = (c # hd (split_scan old cs)) # tl (split_scan old cs)"
  by (cases "split_scan old cs") auto

lemma join_split_scan: "old \<noteq> [] \<Longrightarrow> join_with old (split_scan old s) = s"
proof (induction old s rule: split_scan.induct)
  case (1 old)
  then show ?case by simp
next
  case (2 old c cs)
  show ?case
  proof (cases "prefix old (c # cs)")
    case True
    then have "c # cs = old @ drop (length old) (c # cs)"
      by (metis append_eq_conv_conj prefix_def)
    with True 2 show ?thesis by (simp add: join_with_Cons)
  next
    case False
    then have sp: "split_scan old (c # cs) = (c # hd (split_scan old cs)) # tl (split_scan old cs)"
      using split_scan_step [of old c cs] by blast
    have "join_with old (split_scan old cs) = cs"
      using "2.IH"(2) False "2.prems" by blast
    then show ?thesis
      unfolding sp using join_with_Cons_hd [OF split_scan_not_Nil, of old c old cs] by simp
  qed
qed

lemma join_split_scan_replace:
  "old \<noteq> [] \<Longrightarrow> join_with new (split_scan old s) = replace_scan old new s"
proof (induction old s rule: split_scan.induct)
  case (1 old)
  then show ?case by simp
next
  case (2 old c cs)
  show ?case
  proof (cases "prefix old (c # cs)")
    case True
    with 2 show ?thesis by (simp add: join_with_Cons)
  next
    case False
    then have sp: "split_scan old (c # cs) = (c # hd (split_scan old cs)) # tl (split_scan old cs)"
      using split_scan_step [of old c cs] by blast
    have "join_with new (split_scan old cs) = replace_scan old new cs"
      using "2.IH"(2) False "2.prems" by blast
    moreover have "replace_scan old new (c # cs) = c # replace_scan old new cs"
      using False by simp
    ultimately show ?thesis
      unfolding sp using join_with_Cons_hd [OF split_scan_not_Nil, of new c old cs] by simp
  qed
qed

lemma length_split_scan: "length (split_scan old s) = Suc (count_scan old s)"
  by (induction old s rule: split_scan.induct) (auto split: list.splits)

lemma hd_split_scan_prefix: "old \<noteq> [] \<Longrightarrow> prefix (hd (split_scan old s)) s"
proof -
  assume "old \<noteq> []"
  then have "join_with old (split_scan old s) = s" by (rule join_split_scan)
  moreover have "prefix (hd ps) (join_with old ps)" if "ps \<noteq> []" for ps
    using that by (cases ps; cases "tl ps") auto
  ultimately show ?thesis by (metis split_scan_not_Nil)
qed

lemma split_scan_pieces_free:
  "old \<noteq> [] \<Longrightarrow> p \<in> set (split_scan old s) \<Longrightarrow> \<not> occurs old p"
proof (induction old s arbitrary: p rule: split_scan.induct)
  case (1 old)
  then show ?case by simp
next
  case (2 old c cs)
  show ?case
  proof (cases "prefix old (c # cs)")
    case True
    with 2 show ?thesis by auto
  next
    case False
    let ?r = "split_scan old cs"
    have sp: "split_scan old (c # cs) = (c # hd ?r) # tl ?r"
      using False by (simp only: split_scan_step simp_thms)
    have hdfree: "\<not> occurs old (hd ?r)"
      using "2.IH"(2) [of "hd ?r"] False "2.prems"(1) by simp
    have "\<not> prefix old (c # hd ?r)"
    proof
      assume "prefix old (c # hd ?r)"
      moreover have "prefix (c # hd ?r) (c # cs)"
        using hd_split_scan_prefix [OF "2.prems"(1), of cs] by simp
      ultimately show False using False prefix_order.trans by blast
    qed
    with hdfree have first: "\<not> occurs old (c # hd ?r)" by simp
    have rest: "\<not> occurs old q" if "q \<in> set (tl ?r)" for q
      using "2.IH"(2) [of q] False "2.prems"(1) that by (auto dest: list.set_sel(2) [rotated])
    from "2.prems"(2) sp first rest show ?thesis by auto
  qed
qed

section \<open>What remains of the target directory\<close>

subsection \<open>After the replacement\<close>

lemma prefix_replace_scan_free:
  "old = a # name \<Longrightarrow> prefix [a] new \<Longrightarrow> a \<notin> set n \<Longrightarrow>
   prefix n (replace_scan old new s) \<Longrightarrow> prefix n s"
proof (induction old new s arbitrary: n rule: replace_scan.induct)
  case (1 old new)
  then show ?case by simp
next
  case (2 old new c cs)
  show ?case
  proof (cases n)
    case Nil
    then show ?thesis by simp
  next
    case (Cons x n')
    with "2.prems"(3) have x: "x \<noteq> a" "a \<notin> set n'" by auto
    show ?thesis
    proof (cases "prefix old (c # cs)")
      case True
      then have "replace_scan old new (c # cs) = new @ replace_scan old new (drop (length old) (c # cs))"
        using "2.prems"(1) by simp
      moreover obtain new' where "new = a # new'"
        using "2.prems"(2) by (cases new) auto
      ultimately have "x = a" using "2.prems"(4) Cons by simp
      with x show ?thesis by simp
    next
      case False
      then have "replace_scan old new (c # cs) = c # replace_scan old new cs" by simp
      with "2.prems"(4) Cons have "x = c" "prefix n' (replace_scan old new cs)" by simp_all
      moreover from this have "prefix n' cs"
        using "2.IH"(2) [of n'] False "2.prems"(1,2) x(2) by blast
      ultimately show ?thesis using Cons by simp
    qed
  qed
qed

lemma replace_scan_no_remain:
  assumes "old = a # name" "a \<notin> set name" "prefix [a] new" "\<not> occurs old new"
    and "\<forall>p \<in> set (prefixes old). p \<noteq> [] \<and> p \<noteq> old \<longrightarrow> \<not> suffix p new"
  shows "\<not> occurs old (replace_scan old new s)"
  using assms
proof (induction old new s rule: replace_scan.induct)
  case (1 old new)
  then show ?case by simp
next
  case (2 old new c cs)
  show ?case
  proof (cases "prefix old (c # cs)")
    case True
    let ?r = "replace_scan old new (drop (length old) (c # cs))"
    have IH: "\<not> sublist old ?r"
      using "2.IH"(1) True "2.prems" by (simp add: occurs_iff_sublist)
    have r: "replace_scan old new (c # cs) = new @ ?r"
      using True "2.prems"(1) by simp
    have "\<not> sublist old (new @ ?r)"
    proof
      assume "sublist old (new @ ?r)"
      then consider "sublist old new" | "sublist old ?r"
        | xs1 xs2 where "old = xs1 @ xs2" "suffix xs1 new" "prefix xs2 ?r"
        unfolding sublist_append by blast
      then show False
      proof cases
        case 1
        then show False using "2.prems"(4) by (simp add: occurs_iff_sublist)
      next
        case 2
        then show False using IH by simp
      next
        case 3
        have "xs1 \<in> set (prefixes old)" using 3(1) by (simp add: in_set_prefixes)
        moreover have "xs1 \<noteq> []"
        proof
          assume "xs1 = []"
          with 3 have "prefix old ?r" by simp
          then show False using IH by auto
        qed
        moreover have "xs1 \<noteq> old"
        proof
          assume "xs1 = old"
          with 3(2) have "sublist old new" by auto
          then show False using "2.prems"(4) by (simp add: occurs_iff_sublist)
        qed
        ultimately show False using "2.prems"(5) 3(2) by blast
      qed
    qed
    then show ?thesis unfolding r by (simp add: occurs_iff_sublist)
  next
    case False
    have IH: "\<not> occurs old (replace_scan old new cs)"
      using "2.IH"(2) False "2.prems" by blast
    have r: "replace_scan old new (c # cs) = c # replace_scan old new cs"
      using False by simp
    have "\<not> prefix old (c # replace_scan old new cs)"
    proof
      assume p: "prefix old (c # replace_scan old new cs)"
      have "c = a" "prefix name (replace_scan old new cs)"
        using p "2.prems"(1) by auto
      then have "prefix name cs"
        using prefix_replace_scan_free [OF "2.prems"(1,3,2)] by blast
      with \<open>c = a\<close> have "prefix old (c # cs)" using "2.prems"(1) by simp
      with False show False by simp
    qed
    with IH show ?thesis unfolding r by simp
  qed
qed

subsection \<open>After the normalisation\<close>

lemma prefix_join_free:
  assumes "SEP \<notin> set n" "prefix n (str_join SEP (y # ys))"
  shows "prefix n y"
proof (cases ys)
  case Nil
  with assms show ?thesis by simp
next
  case (Cons z zs)
  with assms(2) have "prefix n (y @ SEP # str_join SEP (z # zs))" by simp
  then consider "prefix n y" | us where "n = y @ us" "prefix us (SEP # str_join SEP (z # zs))"
    unfolding prefix_append by blast
  then show ?thesis
  proof cases
    case 1
    then show ?thesis .
  next
    case 2
    show ?thesis
    proof (cases us)
      case Nil
      with 2 show ?thesis by simp
    next
      case (Cons u us')
      with 2 have "u = SEP" by simp
      with 2(1) Cons assms(1) show ?thesis by simp
    qed
  qed
qed

lemma occurs_in_join:
  assumes "\<forall>w \<in> set R. SEP \<notin> set w" "SEP \<notin> set name" "occurs (SEP # name) (str_join SEP R)"
  shows "\<exists>c \<in> set (tl R). prefix name c"
  using assms
proof (induction SEP R rule: str_join.induct)
  case 1
  then show ?case by simp
next
  case (2 x)
  then show ?case using occurs_set [of "SEP # name" x] by auto
next
  case (3 x y ys)
  let ?rest = "str_join SEP (y # ys)"
  have x: "SEP \<notin> set x" using 3(2) by simp
  have pre: "\<exists>c \<in> set (tl (x # y # ys)). prefix name c" if "prefix (SEP # name) (SEP # ?rest)"
  proof -
    from that have "prefix name ?rest" by simp
    then have "prefix name y" using 3(3) prefix_join_free by blast
    then show ?thesis by auto
  qed
  from 3(4) have "sublist (SEP # name) (x @ SEP # ?rest)"
    by (simp add: occurs_iff_sublist)
  then consider "sublist (SEP # name) x" | "sublist (SEP # name) (SEP # ?rest)"
    | xs1 xs2 where "SEP # name = xs1 @ xs2" "suffix xs1 x" "prefix xs2 (SEP # ?rest)"
    unfolding sublist_append by blast
  then show ?case
  proof cases
    case 1
    then show ?thesis using x set_mono_sublist by fastforce
  next
    case 2
    then consider "prefix (SEP # name) (SEP # ?rest)" | "sublist (SEP # name) ?rest"
      by (auto simp: sublist_Cons_right)
    then show ?thesis
    proof cases
      case 1
      then show ?thesis by (rule pre)
    next
      case 2
      then have "\<exists>c \<in> set (tl (y # ys)). prefix name c"
        using 3 by (simp add: occurs_iff_sublist)
      then show ?thesis by auto
    qed
  next
    case 3
    show ?thesis
    proof (cases xs1)
      case Nil
      with 3 show ?thesis using pre by simp
    next
      case (Cons u us)
      with 3(1) have "u = SEP" by simp
      with Cons 3(2) have "SEP \<in> set x" using set_mono_suffix by fastforce
      with x show ?thesis by simp
    qed
  qed
qed

lemma str_join_slashes:
  "R \<noteq> [] \<Longrightarrow> str_join SEP (replicate i [] @ R) = replicate i SEP @ str_join SEP R"
proof (induction i)
  case 0
  then show ?case by simp
next
  case (Suc i)
  then have "replicate i [] @ R \<noteq> []" by simp
  then obtain y ys where "replicate i [] @ R = y # ys" by (cases "replicate i [] @ R") auto
  with Suc show ?case by simp
qed

lemma subseq_tl: "subseq xs ys \<Longrightarrow> set (tl xs) \<subseteq> set (tl ys)"
proof (cases xs)
  case Nil
  then show ?thesis by simp
next
  case (Cons x xs')
  assume "subseq xs ys"
  with Cons obtain us v vs where ys: "ys = us @ v # vs" and "subseq xs' vs"
    using list_emb_ConsD [of "(=)" x xs' ys] by blast
  have "set xs' \<subseteq> set vs"
  proof
    fix z assume z: "z \<in> set xs'"
    obtain y where "y \<in> set vs" "z = y"
      using list_emb_set [OF \<open>subseq xs' vs\<close> z] by blast
    then show "z \<in> set vs" by simp
  qed
  moreover have "set vs \<subseteq> set (tl ys)" unfolding ys by (cases us) auto
  ultimately show ?thesis using Cons by auto
qed

lemma tl_split_occurrence:
  "c \<in> set (tl (str_split s SEP)) \<Longrightarrow> \<exists>pre suf. s = pre @ SEP # c @ suf"
proof (induction s)
  case Nil
  then show ?case by simp
next
  case (Cons x s)
  obtain w ws where r: "str_split s SEP = w # ws" by (cases "str_split s SEP") auto
  have j: "s = str_join SEP (w # ws)" using str_join_split [of SEP s] r by simp
  show ?case
  proof (cases "x = SEP")
    case True
    with Cons.prems r have "c = w \<or> c \<in> set ws" by simp
    then show ?thesis
    proof
      assume "c = w"
      then have "\<exists>suf. s = c @ suf" using j by (cases ws) auto
      then obtain suf where "s = c @ suf" by blast
      with True have "x # s = [] @ SEP # c @ suf" by simp
      then show ?thesis by blast
    next
      assume "c \<in> set ws"
      with r Cons.IH obtain pre suf where "s = pre @ SEP # c @ suf" by auto
      then have "x # s = (x # pre) @ SEP # c @ suf" by simp
      then show ?thesis by blast
    qed
  next
    case False
    with Cons.prems r have "c \<in> set ws" by simp
    with r Cons.IH obtain pre suf where "s = pre @ SEP # c @ suf" by auto
    then have "x # s = (x # pre) @ SEP # c @ suf" by simp
    then show ?thesis by blast
  qed
qed

lemma os_path_normpath_no_new_occurrence:
  assumes "name \<noteq> []" "SEP \<notin> set name" "occurs (SEP # name) (os_path_normpath s)"
  shows "occurs (SEP # name) s"
proof -
  define i where "i = initial_slashes_of s"
  define R where "R = normpath_loop i [] (str_split s SEP)"
  have nc: "normal_comps i R" unfolding R_def by (rule normpath_comps_normal)
  then have free: "\<forall>w \<in> set R. SEP \<notin> set w" by (simp add: normal_comps_def)
  have out: "os_path_normpath s = (if i = 0 \<and> R = [] then ''.'' else replicate i SEP @ str_join SEP R)"
    unfolding i_def R_def by (rule os_path_normpath_eq)
  have sub: "subseq R (str_split s SEP)"
    unfolding R_def using normpath_loop_subseq [of "[]" "[]" i "str_split s SEP"] by simp
  have notdot: "\<not> occurs (SEP # name) ''.''" by simp
  have "\<exists>c \<in> set (tl (str_split s SEP)). prefix name c"
  proof (cases "R = []")
    case True
    with out assms(3) notdot have "occurs (SEP # name) (replicate i SEP)"
      by (auto split: if_splits)
    then have "set (SEP # name) \<subseteq> set (replicate i SEP)" by (rule occurs_set)
    with assms(1,2) show ?thesis by (cases name) (auto split: if_splits)
  next
    case False
    with out assms(3) have "occurs (SEP # name) (str_join SEP (replicate i [] @ R))"
      by (simp add: str_join_slashes)
    moreover have "\<forall>w \<in> set (replicate i [] @ R). SEP \<notin> set w" using free by auto
    ultimately obtain c where c: "c \<in> set (tl (replicate i [] @ R))" "prefix name c"
      using occurs_in_join [OF _ assms(2)] by blast
    from c(2) assms(1) have ne: "c \<noteq> []" by auto
    show ?thesis
    proof (cases "i = 0")
      case True
      with c(1) have "c \<in> set (tl R)" by simp
      then have "c \<in> set (tl (str_split s SEP))" using subseq_tl [OF sub] by blast
      with c(2) show ?thesis by blast
    next
      case False
      then have "prefix [SEP] s" unfolding i_def by (simp add: initial_slashes_of_pos)
      then obtain s' where "s = SEP # s'" by (cases s) auto
      then have sp: "str_split s SEP = [] # str_split s' SEP" by simp
      from False obtain k where "i = Suc k" by (cases i) auto
      with c(1) ne have cR: "c \<in> set R" by auto
      obtain y where "y \<in> set (str_split s SEP)" "c = y"
        using list_emb_set [OF sub cR] by blast
      then have "c \<in> set (str_split s SEP)" by simp
      with sp ne have "c \<in> set (tl (str_split s SEP))" by simp
      with c(2) show ?thesis by blast
    qed
  qed
  then obtain c where "c \<in> set (tl (str_split s SEP))" "prefix name c" by blast
  then obtain pre suf where "s = pre @ SEP # c @ suf"
    using tl_split_occurrence [of c s] by blast
  moreover obtain c' where "c = name @ c'"
    using \<open>prefix name c\<close> by (auto simp: prefix_def)
  ultimately have "s = pre @ SEP # (name @ c') @ suf" by simp
  then have "s = pre @ (SEP # name) @ (c' @ suf)" by simp
  then show ?thesis unfolding occurs_append_iff by blast
qed

section \<open>The substitution\<close>

lemma str_replace_as_join:
  "old \<noteq> [] \<Longrightarrow> str_replace s old new = join_with new (split_scan old s)"
  by (simp add: str_replace_def join_split_scan_replace)

lemma sanitized_line_no_remain:
  assumes "prefix [SEP] tgt" "tl tgt \<noteq> []" "SEP \<notin> set (tl tgt)"
    and "prefix [SEP] cur" "\<not> occurs tgt cur"
    and "\<forall>p \<in> set (prefixes tgt). p \<noteq> [] \<and> p \<noteq> tgt \<longrightarrow> \<not> suffix p cur"
  shows "\<not> occurs tgt (os_path_normpath (str_replace line tgt cur))"
proof -
  from assms(1) have t: "tgt = SEP # tl tgt" by (cases tgt) auto
  have "\<not> occurs tgt (replace_scan tgt cur line)"
    using t assms(3,4,5,6) by (rule replace_scan_no_remain)
  moreover have "tgt \<noteq> []" using t by auto
  ultimately have "\<not> occurs tgt (str_replace line tgt cur)"
    by (simp add: str_replace_def)
  then have "\<not> occurs (SEP # tl tgt) (str_replace line tgt cur)"
    using t by simp
  then have "\<not> occurs (SEP # tl tgt) (os_path_normpath (str_replace line tgt cur))"
    using os_path_normpath_no_new_occurrence [OF assms(2,3)] by blast
  with t show ?thesis by simp
qed

text \<open>
  Claim C1, amended. Let the target directory be non-empty and the mapping file readable.
  Every line is cut at the occurrences of the target directory that \<open>str.count\<close> counts
  (from the left, without overlap): with N of them there are N + 1 pieces, none of which
  contains the target directory, and the line is the pieces joined by it. What is written
  is, line by line, the normalisation of the same pieces joined by the current directory:
  all N occurrences are replaced. No occurrence remains in a written line when the
  current directory cannot re-create one: the target directory is a separator followed by
  a non-empty name without separator (as \<open>/tmp\<close>), and the current directory starts with
  a separator, does not contain the target directory and does not end with a non-empty
  proper prefix of it.
\<close>

theorem repair_substitution:
  assumes "fst (gz_read gzfile w) = Inr fin" and "target_directory \<noteq> []"
  shows "(\<exists>t'. files (snd (sanitize_synctex gzfile current_directory target_directory w)) (resolve w gzfile)
                 = Some (GzText t')
              \<and> t' = concat (map (\<lambda>line. os_path_normpath
                                    (join_with current_directory (split_scan target_directory line))) fin))
       \<and> (\<forall>line \<in> set fin.
             join_with target_directory (split_scan target_directory line) = line
           \<and> length (split_scan target_directory line) = Suc (str_count line target_directory)
           \<and> (\<forall>p \<in> set (split_scan target_directory line). \<not> occurs target_directory p))
       \<and> (prefix [SEP] target_directory \<and> tl target_directory \<noteq> [] \<and> SEP \<notin> set (tl target_directory)
           \<and> prefix [SEP] current_directory \<and> \<not> occurs target_directory current_directory
           \<and> (\<forall>p \<in> set (prefixes target_directory).
                  p \<noteq> [] \<and> p \<noteq> target_directory \<longrightarrow> \<not> suffix p current_directory)
          \<longrightarrow> (\<forall>l \<in> set (newlines current_directory target_directory fin).
                  \<not> occurs target_directory l))"
proof -
  from assms(1) obtain t where t: "files w (resolve w gzfile) = Some (GzText t)" "fin = read_lines t"
    by (auto simp: gz_read_Inr)
  have nl: "newlines current_directory target_directory fin
        = map (\<lambda>line. os_path_normpath (join_with current_directory (split_scan target_directory line))) fin"
    using assms(2) by (simp add: newlines_def str_replace_as_join)
  have a: "\<exists>t'. files (snd (sanitize_synctex gzfile current_directory target_directory w)) (resolve w gzfile)
                 = Some (GzText t')
              \<and> t' = concat (map (\<lambda>line. os_path_normpath
                                    (join_with current_directory (split_scan target_directory line))) fin)"
    unfolding sanitize_synctex_readable [OF t(1)] using t(2) nl by simp
  have b: "\<forall>line \<in> set fin.
             join_with target_directory (split_scan target_directory line) = line
           \<and> length (split_scan target_directory line) = Suc (str_count line target_directory)
           \<and> (\<forall>p \<in> set (split_scan target_directory line). \<not> occurs target_directory p)"
    using assms(2) split_scan_pieces_free [OF assms(2)]
    by (simp add: join_split_scan length_split_scan str_count_def)
  have c: "\<forall>l \<in> set (newlines current_directory target_directory fin). \<not> occurs target_directory l"
    if "prefix [SEP] target_directory \<and> tl target_directory \<noteq> [] \<and> SEP \<notin> set (tl target_directory)
           \<and> prefix [SEP] current_directory \<and> \<not> occurs target_directory current_directory
           \<and> (\<forall>p \<in> set (prefixes target_directory).
                  p \<noteq> [] \<and> p \<noteq> target_directory \<longrightarrow> \<not> suffix p current_directory)"
    using that sanitized_line_no_remain [of target_directory current_directory]
    by (auto simp: newlines_def)
  from a b c show ?thesis by blast
qed

theorem repair_substitution_witness:
  "fst (gz_read ''n.gz'' \<lparr>cwd = ''/d'', files = [''/d/n.gz'' \<mapsto> GzText (''/tmp/n:/tmp'' @ [LF])], trace = []\<rparr>)
     = Inr [''/tmp/n:/tmp'' @ [LF]]
   \<and> ''/tmp'' \<noteq> []
   \<and> str_count (''/tmp/n:/tmp'' @ [LF]) ''/tmp'' = 2
   \<and> length (split_scan ''/tmp'' (''/tmp/n:/tmp'' @ [LF])) = Suc (str_count (''/tmp/n:/tmp'' @ [LF]) ''/tmp'')
   \<and> prefix [SEP] ''/tmp'' \<and> tl ''/tmp'' \<noteq> [] \<and> SEP \<notin> set (tl ''/tmp'')
   \<and> prefix [SEP] ''/h'' \<and> \<not> occurs ''/tmp'' ''/h''
   \<and> \<not> suffix ''/'' ''/h'' \<and> \<not> suffix ''/t'' ''/h'' \<and> \<not> suffix ''/tm'' ''/h''
   \<and> newlines ''/h'' ''/tmp'' [''/tmp/n:/tmp'' @ [LF]] = [''/h/n:/h'' @ [LF]]
   \<and> \<not> occurs ''/tmp'' (''/h/n:/h'' @ [LF])"
proof -
  let ?w = "\<lparr>cwd = ''/d'', files = [''/d/n.gz'' \<mapsto> GzText (''/tmp/n:/tmp'' @ [LF])], trace = []\<rparr>"
  have h1: "fst (gz_read ''n.gz'' ?w) = Inr [''/tmp/n:/tmp'' @ [LF]]"
    by (simp add: gz_read_def resolve_def os_path_join_def read_lines_def Let_def suffix_to_prefix)
  have h2: "''/tmp'' \<noteq> []" by simp
  have h3: "prefix [SEP] ''/tmp'' \<and> tl ''/tmp'' \<noteq> [] \<and> SEP \<notin> set (tl ''/tmp'')
       \<and> prefix [SEP] ''/h'' \<and> \<not> occurs ''/tmp'' ''/h''
       \<and> (\<forall>p \<in> set (prefixes ''/tmp''). p \<noteq> [] \<and> p \<noteq> ''/tmp'' \<longrightarrow> \<not> suffix p ''/h'')"
    by (simp add: suffix_to_prefix)
  have h4: "\<not> suffix ''/'' ''/h'' \<and> \<not> suffix ''/t'' ''/h'' \<and> \<not> suffix ''/tm'' ''/h''"
    by (simp add: suffix_to_prefix)
  have v: "newlines ''/h'' ''/tmp'' [''/tmp/n:/tmp'' @ [LF]] = [''/h/n:/h'' @ [LF]]"
    by (simp add: newlines_def str_replace_def os_path_normpath_def initial_slashes_of_def Let_def)
  have n: "str_count (''/tmp/n:/tmp'' @ [LF]) ''/tmp'' = 2"
    by (simp add: str_count_def)
  have m1: "''/tmp/n:/tmp'' @ [LF] \<in> set [''/tmp/n:/tmp'' @ [LF]]"
    and m2: "''/h/n:/h'' @ [LF] \<in> set [''/h/n:/h'' @ [LF]]"
    by (simp_all only: list.set insertI1)
  from repair_substitution [OF h1 h2, of "''/h''"] h3
  have b1: "\<forall>line \<in> set [''/tmp/n:/tmp'' @ [LF]]. length (split_scan ''/tmp'' line) = Suc (str_count line ''/tmp'')"
    and b2: "\<forall>l \<in> set (newlines ''/h'' ''/tmp'' [''/tmp/n:/tmp'' @ [LF]]). \<not> occurs ''/tmp'' l"
    by blast+
  have c1: "length (split_scan ''/tmp'' (''/tmp/n:/tmp'' @ [LF])) = Suc (str_count (''/tmp/n:/tmp'' @ [LF]) ''/tmp'')"
    using b1 m1 by (rule bspec)
  have c2: "\<not> occurs ''/tmp'' (''/h/n:/h'' @ [LF])"
    using b2 [unfolded v] m2 by (rule bspec)
  from h1 h2 h3 h4 v n c1 c2 show ?thesis by blast
qed

theorem repair_substitution_counterexample:
  "fst (gz_read ''n.gz'' \<lparr>cwd = ''/d'', files = [''/d/n.gz'' \<mapsto> GzText (''/tmp/n'' @ [LF])], trace = []\<rparr>)
     = Inr [''/tmp/n'' @ [LF]]
   \<and> str_count (''/tmp/n'' @ [LF]) ''/tmp'' = 1
   \<and> fst (gz_read ''n.gz'' (snd (sanitize_synctex ''n.gz'' ''/h/tmp'' ''/tmp''
          \<lparr>cwd = ''/d'', files = [''/d/n.gz'' \<mapsto> GzText (''/tmp/n'' @ [LF])], trace = []\<rparr>)))
     = Inr [''/h/tmp/n'' @ [LF]]
   \<and> occurs ''/tmp'' (''/h/tmp/n'' @ [LF])"
  by (simp add: eval_defs str_count_def)

section \<open>What the rsync back excludes\<close>

lemma quoted_argument_sync_back:
  "quoted_argument (sync_back_command remote_filepath loc_filepath server) = ''(.[!.]*|*.tex)''"
  by (simp add: quoted_argument_def sync_back_command_def)

lemma quoted_argument_sync_forward:
  "quoted_argument (sync_forward_command loc_filepath remote_filepath server) = ''.[!.]*''"
  by (simp add: quoted_argument_def sync_forward_command_def)

lemma glob_parse_sync_back:
  "glob_parse None ''(.[!.]*|*.tex)''
     = [Lit CHR ''('', Lit DOT, Class True ''.'', Star, Lit CHR ''|'', Star] @ map Lit ''.tex)''"
  by simp

lemma glob_match_literals: "glob_match (map Lit w) s \<longleftrightarrow> s = w"
  by (induction w arbitrary: s) (auto split: list.splits)

lemma glob_match_suffix: "glob_match (ps @ map Lit w) s \<Longrightarrow> suffix w s"
proof (induction ps s rule: glob_match.induct)
  case (1 s)
  then show ?case by (simp add: glob_match_literals)
next
  case (2 c ps s)
  then show ?case by (cases s) (auto simp: suffix_ConsI)
next
  case (3 ps s)
  then show ?case by (cases s) (auto simp: suffix_ConsI)
next
  case (4 negated members ps s)
  then show ?case by (cases s) (auto simp: suffix_ConsI)
next
  case (5 ps s)
  then show ?case by (cases s) (auto simp: suffix_ConsI)
qed

lemma sync_back_excluded_shape:
  assumes "rsync_excludes ''(.[!.]*|*.tex)'' name"
  shows "prefix ''(.'' name \<and> suffix ''.tex)'' name"
proof -
  let ?ps = "[Lit CHR ''('', Lit DOT, Class True ''.'', Star, Lit CHR ''|'', Star]"
  from assms have m: "glob_match (?ps @ map Lit ''.tex)'') name"
    unfolding rsync_excludes_def glob_parse_sync_back .
  then have "suffix ''.tex)'' name" by (rule glob_match_suffix)
  moreover from m have "prefix ''(.'' name"
    by (cases name; cases "tl name") auto
  ultimately show ?thesis by simp
qed

text \<open>
  Claim C7. The rsync back is given one exclude pattern, \<open>(.[!.]*|*.tex)\<close>. rsync reads
  the parentheses and the bar as ordinary characters, so the pattern leaves out only
  names that start with \<open>(.\<close> and end with \<open>.tex)\<close>: it excludes neither a hidden
  entry such as \<open>.git\<close> nor a source file such as \<open>notes.tex\<close>, which the claim says
  are both excluded. The pattern of the forward rsync does exclude \<open>.git\<close>.
\<close>

theorem sync_back_excludes_neither:
  "quoted_argument (sync_back_command remote_filepath loc_filepath server) = ''(.[!.]*|*.tex)''
   \<and> \<not> rsync_excludes (quoted_argument (sync_back_command remote_filepath loc_filepath server)) ''notes.tex''
   \<and> \<not> rsync_excludes (quoted_argument (sync_back_command remote_filepath loc_filepath server)) ''.git''
   \<and> (rsync_excludes (quoted_argument (sync_back_command remote_filepath loc_filepath server)) name
        \<longrightarrow> prefix ''(.'' name \<and> suffix ''.tex)'' name)
   \<and> rsync_excludes (quoted_argument (sync_forward_command loc_filepath remote_filepath server)) ''.git''"
proof -
  have a: "\<not> rsync_excludes ''(.[!.]*|*.tex)'' ''notes.tex''"
    by (simp add: rsync_excludes_def)
  have b: "\<not> rsync_excludes ''(.[!.]*|*.tex)'' ''.git''"
    by (simp add: rsync_excludes_def)
  have c: "rsync_excludes ''.[!.]*'' ''.git''"
    by (simp add: rsync_excludes_def)
  show ?thesis
    unfolding quoted_argument_sync_back quoted_argument_sync_forward
    using a b c sync_back_excluded_shape by blast
qed

theorem sync_back_excludes_neither_witness:
  "rsync_excludes (quoted_argument (sync_back_command ''/tmp/t'' ''/h'' ''srv'')) ''(.a|n.tex)''
   \<and> prefix ''(.'' ''(.a|n.tex)'' \<and> suffix ''.tex)'' ''(.a|n.tex)''"
proof -
  have "rsync_excludes (quoted_argument (sync_back_command ''/tmp/t'' ''/h'' ''srv'')) ''(.a|n.tex)''"
    unfolding quoted_argument_sync_back by (simp add: rsync_excludes_def)
  with sync_back_excludes_neither [of "''/tmp/t''" "''/h''" "''srv''" "''(.a|n.tex)''"]
  show ?thesis by blast
qed

end
